theory Spec2Isabelle
  imports Main
begin

section \<open>The operation tree\<close>

text \<open>
  The pass of \<^verbatim>\<open>mark_ops_for_outside_compilation.cc\<close> reads an MLIR module and
  mutates attributes only. The structure of the module (operation names, operands,
  results, nested regions) is therefore an immutable tree, and the attribute
  dictionaries live in a store indexed by the address of the operation.

  The address of an operation is its path from the module: one step
  \<open>(region, block, position)\<close> per enclosing operation, innermost step first, so that
  \<^verbatim>\<open>getParentOp\<close> is the tail of the path and the module itself is \<open>[]\<close>.
\<close>

datatype mlir_type = StringType | OtherType nat | ShapedType mlir_type

fun getElementTypeOrSelf :: "mlir_type \<Rightarrow> mlir_type" where
  "getElementTypeOrSelf (ShapedType elementType) = elementType"
| "getElementTypeOrSelf t = t"

definition isa_StringType :: "mlir_type \<Rightarrow> bool" where
  "isa_StringType t = (t = StringType)"

datatype attribute = StringAttr string | BoolAttr bool | UnitAttr

text \<open>An operation name is a dialect namespace and a name within it (\<^verbatim>\<open>tf.IfRegion\<close>).\<close>

datatype OperationName = OperationName (getDialectNamespace: string) (getStringRef: string)

text \<open>
  An operand is a use of an SSA value. The pass reads two things of it: its type, and
  the region that defines it (\<^verbatim>\<open>getParentRegion\<close>), which in verified IR encloses
  the use. \<open>def_depth\<close> is the number of region boundaries between the use and that
  region: \<open>0\<close> for a value defined in the region of the using operation, \<open>1\<close> for the
  region around that, and so on.
\<close>

datatype val = Val (getType: mlir_type) (def_depth: nat)

datatype operation =
  Operation (getName: OperationName) (getOperands: "val list")
    (getResults: "mlir_type list") (getRegions: "operation list list list")

type_synonym step = "nat \<times> nat \<times> nat"
type_synonym path = "step list"
type_synonym DictionaryAttr = "string \<Rightarrow> attribute option"
type_synonym attr_store = "path \<Rightarrow> DictionaryAttr"

definition getDialect :: "operation \<Rightarrow> string" where
  "getDialect op = getDialectNamespace (getName op)"

fun getParentOp :: "path \<Rightarrow> path option" where
  "getParentOp [] = None"
| "getParentOp (s # parent_op) = Some parent_op"

subsection \<open>Attributes\<close>

definition kXlaOutsideCompilationAttr :: string where
  "kXlaOutsideCompilationAttr = ''_xla_outside_compilation''"

definition kAllowSoftPlacementAttr :: string where
  "kAllowSoftPlacementAttr = ''allow_soft_placement''"

definition getAttrOfType_StringAttr :: "DictionaryAttr \<Rightarrow> string \<Rightarrow> string option" where
  "getAttrOfType_StringAttr d k = (case d k of Some (StringAttr v) \<Rightarrow> Some v | _ \<Rightarrow> None)"

definition getAttrOfType_BoolAttr :: "DictionaryAttr \<Rightarrow> string \<Rightarrow> bool option" where
  "getAttrOfType_BoolAttr d k = (case d k of Some (BoolAttr v) \<Rightarrow> Some v | _ \<Rightarrow> None)"

definition setAttr :: "attr_store \<Rightarrow> path \<Rightarrow> string \<Rightarrow> attribute \<Rightarrow> attr_store" where
  "setAttr s op k v = s(op := (s op)(k \<mapsto> v))"

definition removeAttr :: "attr_store \<Rightarrow> path \<Rightarrow> string \<Rightarrow> attr_store" where
  "removeAttr s op k = s(op := (s op)(k := None))"

subsection \<open>Walks\<close>

text \<open>
  \<^verbatim>\<open>walk\<close> is MLIR's; its source is not part of the repository. It visits an
  operation and everything nested in it, regions, blocks and operations in order. The
  order of an operation relative to its nested operations is a parameter here, and every
  result below holds for both.
\<close>

datatype walk_order = PreOrder | PostOrder

lemma nested_op_size:
  assumes "r < length regs" "b < length (regs ! r)" "i < length (regs ! r ! b)"
  shows "size (regs ! r ! b ! i) < Suc (size_list (size_list (size_list size)) regs)"
proof -
  have "size (regs ! r ! b ! i) \<le> size_list size (regs ! r ! b)"
    by (rule size_list_estimation'[OF nth_mem[OF assms(3)]]) simp
  also have "\<dots> \<le> size_list (size_list size) (regs ! r)"
    by (rule size_list_estimation'[OF nth_mem[OF assms(2)]]) simp
  also have "\<dots> \<le> size_list (size_list (size_list size)) regs"
    by (rule size_list_estimation'[OF nth_mem[OF assms(1)]]) simp
  finally show ?thesis by simp
qed

function walk_op :: "walk_order \<Rightarrow> path \<Rightarrow> operation \<Rightarrow> (path \<times> operation) list" where
  "walk_op ord p op =
     (let nested = concat (map (\<lambda>(r, region).
                     concat (map (\<lambda>(b, block).
                       concat (map (\<lambda>(i, nestedOp). walk_op ord ((r, b, i) # p) nestedOp)
                         (enumerate 0 block)))
                       (enumerate 0 region)))
                     (enumerate 0 (getRegions op)))
      in (case ord of PreOrder \<Rightarrow> (p, op) # nested | PostOrder \<Rightarrow> nested @ [(p, op)]))"
  by pat_completeness auto
termination
proof (relation "measure (\<lambda>(ord, p, op). size op)")
  show "wf (measure (\<lambda>(ord, p, op). size op))" by simp
next
  fix ord :: walk_order and p :: path and op :: operation
    and x :: "nat \<times> operation list list" and r region
    and y :: "nat \<times> operation list" and b block
    and z :: "nat \<times> operation" and i nestedOp
  assume "x \<in> set (enumerate 0 (getRegions op))" "(r, region) = x"
    "y \<in> set (enumerate 0 region)" "(b, block) = y"
    "z \<in> set (enumerate 0 block)" "(i, nestedOp) = z"
  then have "r < length (getRegions op)" "region = getRegions op ! r"
    "b < length region" "block = region ! b" "i < length block" "nestedOp = block ! i"
    by (auto simp: in_set_enumerate_eq)
  then have "size nestedOp < Suc (size_list (size_list (size_list size)) (getRegions op))"
    using nested_op_size by blast
  then show "((ord, (r, b, i) # p, nestedOp), (ord, p, op)) \<in> measure (\<lambda>(ord, p, op). size op)"
    by (cases op) simp
qed

text \<open>\<^verbatim>\<open>Block::walk\<close> and \<^verbatim>\<open>Region::walk\<close>, for block \<open>b\<close> of region \<open>r\<close> of the operation at \<open>p\<close>.\<close>

definition walk_block ::
  "walk_order \<Rightarrow> path \<Rightarrow> nat \<Rightarrow> nat \<Rightarrow> operation list \<Rightarrow> (path \<times> operation) list" where
  "walk_block ord p r b block =
     concat (map (\<lambda>(i, nestedOp). walk_op ord ((r, b, i) # p) nestedOp) (enumerate 0 block))"

definition walk_region ::
  "walk_order \<Rightarrow> path \<Rightarrow> nat \<Rightarrow> operation list list \<Rightarrow> (path \<times> operation) list" where
  "walk_region ord p r region =
     concat (map (\<lambda>(b, block). walk_block ord p r b block) (enumerate 0 region))"

section \<open>The supported operations\<close>

definition IfRegionOp_name :: OperationName where
  "IfRegionOp_name = OperationName ''tf'' ''IfRegion''"

definition WhileRegionOp_name :: OperationName where
  "WhileRegionOp_name = OperationName ''tf'' ''WhileRegion''"

definition YieldOp_name :: OperationName where
  "YieldOp_name = OperationName ''tf'' ''Yield''"

definition RecvTPUEmbeddingActivationsOp_name :: OperationName where
  "RecvTPUEmbeddingActivationsOp_name = OperationName ''tf'' ''RecvTPUEmbeddingActivations''"

definition SendTPUEmbeddingGradientsOp_name :: OperationName where
  "SendTPUEmbeddingGradientsOp_name = OperationName ''tf'' ''SendTPUEmbeddingGradients''"

definition ClusterOp_name :: OperationName where
  "ClusterOp_name = OperationName ''tf_device'' ''cluster''"

definition AddSupportedControlFlowOps :: "OperationName set \<Rightarrow> OperationName set" where
  "AddSupportedControlFlowOps supported_ops =
     insert YieldOp_name (insert WhileRegionOp_name (insert IfRegionOp_name supported_ops))"

definition AddRewrittenEmbeddingOps :: "OperationName set \<Rightarrow> OperationName set" where
  "AddRewrittenEmbeddingOps supported_ops =
     insert SendTPUEmbeddingGradientsOp_name
       (insert RecvTPUEmbeddingActivationsOp_name supported_ops)"

text \<open>
  A rewrite pattern, as far as the pass reads it: \<^verbatim>\<open>getRootKind\<close> returns an optional
  operation name. The pass dereferences it unchecked
  (\<^verbatim>\<open>supported_ops.insert(*pattern->getRootKind())\<close>). The catalog is the one
  \<^verbatim>\<open>mhlo::PopulateLegalizeTfPatterns\<close> fills, whose rules are each rooted at one operation
  kind; the legalization that has no root kind is not in it and is asked for through the
  fallback predicate. On an empty optional the dereference is undefined in C++ (a failed
  assertion where assertions are compiled in); the model returns an abort there, and the
  results below are about catalogs of rooted rules.
\<close>

datatype RewritePattern = RewritePattern (getRootKind: "OperationName option")

datatype abort = AssertionFailure

fun insert_root_kinds ::
  "RewritePattern list \<Rightarrow> OperationName set \<Rightarrow> abort + OperationName set" where
  "insert_root_kinds [] supported_ops = Inr supported_ops"
| "insert_root_kinds (pattern # patterns) supported_ops =
     (case getRootKind pattern of
        None \<Rightarrow> Inl AssertionFailure
      | Some kind \<Rightarrow> insert_root_kinds patterns (insert kind supported_ops))"

definition build_supported_ops :: "RewritePattern list \<Rightarrow> abort + OperationName set" where
  "build_supported_ops patterns =
     (case insert_root_kinds patterns {} of
        Inl a \<Rightarrow> Inl a
      | Inr supported_ops \<Rightarrow>
          Inr (AddRewrittenEmbeddingOps (AddSupportedControlFlowOps supported_ops)))"

section \<open>The eligibility predicate\<close>

fun HasStringOperand_loop :: "val list \<Rightarrow> bool" where
  "HasStringOperand_loop [] = False"
| "HasStringOperand_loop (operand # rest) =
     (if isa_StringType (getElementTypeOrSelf (getType operand)) then True
      else HasStringOperand_loop rest)"

definition HasStringOperand :: "operation \<Rightarrow> bool" where
  "HasStringOperand op = HasStringOperand_loop (getOperands op)"

fun HasStringResult_loop :: "mlir_type list \<Rightarrow> bool" where
  "HasStringResult_loop [] = False"
| "HasStringResult_loop (result # rest) =
     (if isa_StringType (getElementTypeOrSelf result) then True
      else HasStringResult_loop rest)"

definition HasStringResult :: "operation \<Rightarrow> bool" where
  "HasStringResult op = HasStringResult_loop (getResults op)"

definition MatchesPattern :: "operation \<Rightarrow> OperationName set \<Rightarrow> bool" where
  "MatchesPattern op supported_ops = (getName op \<in> supported_ops)"

text \<open>
  \<^verbatim>\<open>mhlo::IsOpAllowedTf2XlaFallback\<close> is a predicate of another library: the
  parameter \<open>fallback\<close>. A dialect is identified by its namespace.
\<close>

definition IsSupportedOp ::
  "(operation \<Rightarrow> bool) \<Rightarrow> operation \<Rightarrow> OperationName set \<Rightarrow> string \<Rightarrow> bool" where
  "IsSupportedOp fallback op supported_ops tf_dialect =
     (if getDialect op \<noteq> tf_dialect then True
      else \<not> HasStringOperand op \<and> \<not> HasStringResult op \<and>
           (MatchesPattern op supported_ops \<or> fallback op))"

text \<open>
  \<^verbatim>\<open>visitUsedValuesDefinedAbove(region, region, callback)\<close> walks the operations of the
  region and calls back on each operand whose defining region is a proper ancestor of
  the region. An operation at relative path \<open>q\<close> lies \<open>length q - 1\<close> regions below the
  region walked, so its operand is defined above exactly when \<open>length q \<le> def_depth\<close>.
  The result lists the operands the callback sees.
\<close>

definition visitUsedValuesDefinedAbove :: "walk_order \<Rightarrow> operation list list \<Rightarrow> val list" where
  "visitUsedValuesDefinedAbove ord region =
     concat (map (\<lambda>(q, op). filter (\<lambda>operand. length q \<le> def_depth operand) (getOperands op))
       (walk_region ord [] 0 region))"

fun HasCapturedStringOperand_loop :: "walk_order \<Rightarrow> operation list list list \<Rightarrow> bool" where
  "HasCapturedStringOperand_loop ord [] = False"
| "HasCapturedStringOperand_loop ord (region # rest) =
     (if list_ex (\<lambda>operand. isa_StringType (getElementTypeOrSelf (getType operand)))
           (visitUsedValuesDefinedAbove ord region)
      then True
      else HasCapturedStringOperand_loop ord rest)"

definition HasCapturedStringOperand :: "walk_order \<Rightarrow> operation \<Rightarrow> bool" where
  "HasCapturedStringOperand ord op = HasCapturedStringOperand_loop ord (getRegions op)"

section \<open>Marking and unmarking\<close>

datatype LogicalResult = success | failure

definition isa_IfRegionOp_WhileRegionOp :: "operation \<Rightarrow> bool" where
  "isa_IfRegionOp_WhileRegionOp op =
     (getName op = IfRegionOp_name \<or> getName op = WhileRegionOp_name)"

text \<open>The body of the lambda of \<^verbatim>\<open>MarkUncompilableOps\<close>, at one operation.\<close>

definition mark_op ::
  "walk_order \<Rightarrow> (operation \<Rightarrow> bool) \<Rightarrow> string \<Rightarrow> OperationName set \<Rightarrow>
   path \<times> operation \<Rightarrow> attr_store \<Rightarrow> attr_store" where
  "mark_op ord fallback tf_dialect supported_ops = (\<lambda>(p, op) s.
     (let s1 = (if \<not> IsSupportedOp fallback op supported_ops tf_dialect
                then setAttr s p kXlaOutsideCompilationAttr (StringAttr ''auto'')
                else s)
      in if isa_IfRegionOp_WhileRegionOp op
         then (if HasCapturedStringOperand ord op
               then setAttr s1 p kXlaOutsideCompilationAttr (StringAttr ''auto'')
               else s1)
         else s1))"

text \<open>The block is block \<open>b\<close> of region \<open>r\<close> of the operation at \<open>p\<close>; \<open>block\<close> are its operations.\<close>

definition MarkUncompilableOps ::
  "walk_order \<Rightarrow> (operation \<Rightarrow> bool) \<Rightarrow> string \<Rightarrow> path \<times> nat \<times> nat \<Rightarrow> operation list \<Rightarrow>
   OperationName set \<Rightarrow> attr_store \<Rightarrow> LogicalResult \<times> attr_store" where
  "MarkUncompilableOps ord fallback tf_dialect addr block supported_ops s =
     (case addr of (p, r, b) \<Rightarrow>
        (success, fold (mark_op ord fallback tf_dialect supported_ops) (walk_block ord p r b block) s))"

text \<open>
  The \<^verbatim>\<open>while\<close> loop of \<^verbatim>\<open>UnmarkChildren\<close>: from \<open>iter_op\<close> upwards, is there a parent
  with the string attribute? The loop ends at the operation without a parent.
\<close>

fun parent_marked :: "attr_store \<Rightarrow> path \<Rightarrow> bool" where
  "parent_marked s [] = False"
| "parent_marked s (st # parent_op) =
     (if getAttrOfType_StringAttr (s parent_op) kXlaOutsideCompilationAttr \<noteq> None then True
      else parent_marked s parent_op)"

definition unmark_op :: "path \<Rightarrow> attr_store \<Rightarrow> attr_store" where
  "unmark_op op s =
     (if getAttrOfType_StringAttr (s op) kXlaOutsideCompilationAttr = None then s
      else if parent_marked s op then removeAttr s op kXlaOutsideCompilationAttr
      else s)"

definition UnmarkChildren ::
  "walk_order \<Rightarrow> path \<times> nat \<times> nat \<Rightarrow> operation list \<Rightarrow> attr_store \<Rightarrow> attr_store" where
  "UnmarkChildren ord addr block s =
     (case addr of (p, r, b) \<Rightarrow> fold unmark_op (map fst (walk_block ord p r b block)) s)"

section \<open>The pass\<close>

record MLIRContext =
  loaded_dialects :: "string list"

definition getLoadedDialect :: "MLIRContext \<Rightarrow> string \<Rightarrow> string option" where
  "getLoadedDialect ctx name = (if name \<in> set (loaded_dialects ctx) then Some name else None)"

definition isa_ClusterOp :: "operation \<Rightarrow> bool" where
  "isa_ClusterOp op = (getName op = ClusterOp_name)"

text \<open>
  \<^verbatim>\<open>cluster.GetBody()\<close> is the first block of the first region. The declaration of
  \<^verbatim>\<open>tf_device.cluster\<close> gives it exactly one region of one block; for a tree that is not
  of that shape the model walks nothing.
\<close>

definition GetBody :: "operation \<Rightarrow> operation list" where
  "GetBody cluster = (case getRegions cluster of (block # _) # _ \<Rightarrow> block | _ \<Rightarrow> [])"

definition soft_placement :: "attr_store \<Rightarrow> path \<Rightarrow> bool" where
  "soft_placement s cluster =
     (case getAttrOfType_BoolAttr (s cluster) kAllowSoftPlacementAttr of
        Some v \<Rightarrow> v
      | None \<Rightarrow> False)"

datatype WalkResult = advance | interrupt

text \<open>The first \<^verbatim>\<open>module.walk\<close> over the cluster operations, which an interrupt ends.\<close>

fun mark_clusters ::
  "walk_order \<Rightarrow> (operation \<Rightarrow> bool) \<Rightarrow> string \<Rightarrow> OperationName set \<Rightarrow>
   (path \<times> operation) list \<Rightarrow> attr_store \<Rightarrow> WalkResult \<times> attr_store" where
  "mark_clusters ord fallback tf_dialect supported_ops [] s = (advance, s)"
| "mark_clusters ord fallback tf_dialect supported_ops ((c, cluster) # rest) s =
     (if \<not> soft_placement s c
      then mark_clusters ord fallback tf_dialect supported_ops rest s
      else (case MarkUncompilableOps ord fallback tf_dialect (c, 0, 0) (GetBody cluster)
                   supported_ops s of
              (res, s') \<Rightarrow>
                if res = failure then (interrupt, s')
                else mark_clusters ord fallback tf_dialect supported_ops rest s'))"

text \<open>The second \<^verbatim>\<open>module.walk\<close>.\<close>

fun unmark_clusters ::
  "walk_order \<Rightarrow> (path \<times> operation) list \<Rightarrow> attr_store \<Rightarrow> attr_store" where
  "unmark_clusters ord [] s = s"
| "unmark_clusters ord ((c, cluster) # rest) s =
     (if \<not> soft_placement s c then unmark_clusters ord rest s
      else unmark_clusters ord rest (UnmarkChildren ord (c, 0, 0) (GetBody cluster) s))"

definition cluster_ops :: "walk_order \<Rightarrow> operation \<Rightarrow> (path \<times> operation) list" where
  "cluster_ops ord module = filter (\<lambda>(c, op). isa_ClusterOp op) (walk_op ord [] module)"

record pass_state =
  attrs :: attr_store
  diagnostics :: "string list"
  pass_failed :: bool

definition dialect_not_registered :: string where
  "dialect_not_registered = CHR 0x27 # ''tf'' @ CHR 0x27 # '' dialect is not registered''"

text \<open>
  \<^verbatim>\<open>mhlo::PopulateLegalizeTfPatterns\<close> is of another library: the patterns it yields are
  the parameter \<open>patterns\<close>.
\<close>

definition runOnOperation ::
  "walk_order \<Rightarrow> MLIRContext \<Rightarrow> RewritePattern list \<Rightarrow> (operation \<Rightarrow> bool) \<Rightarrow>
   operation \<Rightarrow> attr_store \<Rightarrow> abort + pass_state" where
  "runOnOperation ord ctx patterns fallback module s =
     (case getLoadedDialect ctx ''tf'' of
        None \<Rightarrow>
          Inr \<lparr>attrs = s, diagnostics = [dialect_not_registered], pass_failed = True\<rparr>
      | Some tf_dialect \<Rightarrow>
          (case build_supported_ops patterns of
             Inl a \<Rightarrow> Inl a
           | Inr supported_ops \<Rightarrow>
               (case mark_clusters ord fallback tf_dialect supported_ops
                       (cluster_ops ord module) s of
                  (res, s1) \<Rightarrow>
                    if res = interrupt
                    then Inr \<lparr>attrs = s1, diagnostics = [], pass_failed = True\<rparr>
                    else Inr \<lparr>attrs = unmark_clusters ord (cluster_ops ord module) s1,
                              diagnostics = [], pass_failed = False\<rparr>)))"

text \<open>The state after the first walk alone, before any unmarking.\<close>

definition mark_phase ::
  "walk_order \<Rightarrow> (operation \<Rightarrow> bool) \<Rightarrow> OperationName set \<Rightarrow> operation \<Rightarrow>
   attr_store \<Rightarrow> attr_store" where
  "mark_phase ord fallback supported_ops module s =
     snd (mark_clusters ord fallback ''tf'' supported_ops (cluster_ops ord module) s)"

section \<open>Notions of the specification\<close>

fun lookup :: "operation \<Rightarrow> step list \<Rightarrow> operation option" where
  "lookup op [] = Some op"
| "lookup op ((r, b, i) # rest) =
     (if r < length (getRegions op) \<and> b < length (getRegions op ! r) \<and>
         i < length (getRegions op ! r ! b)
      then lookup (getRegions op ! r ! b ! i) rest else None)"

definition op_at :: "operation \<Rightarrow> path \<Rightarrow> operation option" where
  "op_at module p = lookup module (rev p)"

definition carries_marker :: "attr_store \<Rightarrow> path \<Rightarrow> bool" where
  "carries_marker s p = (getAttrOfType_StringAttr (s p) kXlaOutsideCompilationAttr \<noteq> None)"

definition strict_ancestor :: "path \<Rightarrow> path \<Rightarrow> bool" where
  "strict_ancestor a p = (\<exists>d. d \<noteq> [] \<and> p = d @ a)"

definition should_mark ::
  "walk_order \<Rightarrow> (operation \<Rightarrow> bool) \<Rightarrow> string \<Rightarrow> OperationName set \<Rightarrow> operation \<Rightarrow> bool" where
  "should_mark ord fallback tf_dialect supported_ops op =
     (\<not> IsSupportedOp fallback op supported_ops tf_dialect \<or>
      (isa_IfRegionOp_WhileRegionOp op \<and> HasCapturedStringOperand ord op))"

text \<open>Pruning against a fixed store \<open>w\<close>, at the operations of \<open>V\<close>.\<close>

definition pruned :: "attr_store \<Rightarrow> path set \<Rightarrow> attr_store" where
  "pruned w V = (\<lambda>p. if p \<in> V \<and> carries_marker w p \<and> parent_marked w p
                     then (w p)(kXlaOutsideCompilationAttr := None) else w p)"

text \<open>The operations the block walks of the gated clusters visit, in order.\<close>

definition gated_walk ::
  "walk_order \<Rightarrow> (path \<times> operation) list \<Rightarrow> attr_store \<Rightarrow> (path \<times> operation) list" where
  "gated_walk ord clusters s =
     concat (map (\<lambda>(c, cluster). walk_block ord c 0 0 (GetBody cluster))
       (filter (\<lambda>(c, cluster). soft_placement s c) clusters))"

definition gated_cluster :: "operation \<Rightarrow> attr_store \<Rightarrow> path \<Rightarrow> bool" where
  "gated_cluster module s c =
     (\<exists>cluster. op_at module c = Some cluster \<and> isa_ClusterOp cluster \<and> soft_placement s c)"

definition in_body :: "path \<Rightarrow> path \<Rightarrow> bool" where
  "in_body c p = (\<exists>d i. p = d @ (0, 0, i) # c)"

definition in_gated_region :: "operation \<Rightarrow> attr_store \<Rightarrow> path \<Rightarrow> bool" where
  "in_gated_region module s p =
     (op_at module p \<noteq> None \<and> (\<exists>c. gated_cluster module s c \<and> in_body c p))"

text \<open>The store the first walk leaves: every operation of a gated region that the lambda of
  \<^verbatim>\<open>MarkUncompilableOps\<close> marks has the attribute set.\<close>

definition marked_store ::
  "walk_order \<Rightarrow> (operation \<Rightarrow> bool) \<Rightarrow> OperationName set \<Rightarrow> operation \<Rightarrow>
   attr_store \<Rightarrow> attr_store" where
  "marked_store ord fallback supported_ops module s =
     (\<lambda>p. if in_gated_region module s p \<and>
             (\<exists>op. op_at module p = Some op \<and> should_mark ord fallback ''tf'' supported_ops op)
          then (s p)(kXlaOutsideCompilationAttr \<mapsto> StringAttr ''auto'') else s p)"

text \<open>\<open>p\<close> is \<open>c\<close> or nested in it.\<close>

definition in_subtree :: "path \<Rightarrow> path \<Rightarrow> bool" where
  "in_subtree c p = (\<exists>d. p = d @ c)"

text \<open>
  An operation captures a string value when an operation somewhere inside one of its
  regions, \<open>length d\<close> regions below it, uses a value of string element type that is
  defined outside that region.
\<close>

definition captures_string :: "operation \<Rightarrow> bool" where
  "captures_string op =
     (\<exists>region\<in>set (getRegions op). \<exists>b i d x. b < length region \<and> i < length (region ! b) \<and>
        lookup (region ! b ! i) d = Some x \<and>
        (\<exists>v\<in>set (getOperands x).
           getElementTypeOrSelf (getType v) = StringType \<and> length d < def_depth v))"

section \<open>An example module\<close>

text \<open>
  A module of two clusters. The first has soft placement; its body holds an unsupported
  \<open>tf.A\<close> with a nested unsupported \<open>tf.B\<close>, a \<open>tf.WhileRegion\<close> whose body uses a string
  value of the enclosing scope, a nested cluster without the flag that holds an
  unsupported \<open>tf.C\<close>, and an operation of another dialect with a string result. The second
  cluster has no flag; its body holds an unsupported \<open>tf.D\<close> that carries a marker from
  before.
\<close>

definition ex_B :: operation where
  "ex_B = Operation (OperationName ''tf'' ''B'') [] [] []"

definition ex_A :: operation where
  "ex_A = Operation (OperationName ''tf'' ''A'') [] [] [[[ex_B]]]"

definition ex_yield :: operation where
  "ex_yield = Operation YieldOp_name [Val (ShapedType StringType) 1] [] []"

definition ex_while :: operation where
  "ex_while = Operation WhileRegionOp_name [] [] [[[ex_yield]]]"

definition ex_C :: operation where
  "ex_C = Operation (OperationName ''tf'' ''C'') [] [] []"

definition ex_inner_cluster :: operation where
  "ex_inner_cluster = Operation ClusterOp_name [] [] [[[ex_C]]]"

definition ex_foreign :: operation where
  "ex_foreign = Operation (OperationName ''other'' ''F'') [] [ShapedType StringType] []"

definition ex_cluster :: operation where
  "ex_cluster = Operation ClusterOp_name [] [] [[[ex_A, ex_while, ex_inner_cluster, ex_foreign]]]"

definition ex_D :: operation where
  "ex_D = Operation (OperationName ''tf'' ''D'') [] [] []"

definition ex_plain_cluster :: operation where
  "ex_plain_cluster = Operation ClusterOp_name [] [] [[[ex_D]]]"

definition ex_module :: operation where
  "ex_module =
     Operation (OperationName ''builtin'' ''module'') [] [] [[[ex_cluster, ex_plain_cluster]]]"

definition ex_store :: attr_store where
  "ex_store = (\<lambda>p. Map.empty)
     ([(0, 0, 0)] := [kAllowSoftPlacementAttr \<mapsto> BoolAttr True],
      [(0, 0, 0), (0, 0, 1)] := [kXlaOutsideCompilationAttr \<mapsto> StringAttr ''manual''])"

definition ex_ctx :: MLIRContext where
  "ex_ctx = \<lparr>loaded_dialects = [''builtin'', ''tf'', ''tf_device'']\<rparr>"

definition ex_supported :: "OperationName set" where
  "ex_supported = AddRewrittenEmbeddingOps (AddSupportedControlFlowOps {})"

definition ex_fallback :: "operation \<Rightarrow> bool" where
  "ex_fallback op = False"

text \<open>A store where the first cluster and \<open>tf.A\<close> in its body carry the marker.\<close>

definition ex_marks :: attr_store where
  "ex_marks = (\<lambda>p. Map.empty)
     ([(0, 0, 0)] := [kXlaOutsideCompilationAttr \<mapsto> StringAttr ''auto''],
      [(0, 0, 0), (0, 0, 0)] := [kXlaOutsideCompilationAttr \<mapsto> StringAttr ''auto''])"

text \<open>A smaller module: a cluster with soft placement around a cluster without it around \<open>tf.C\<close>.\<close>

definition nested_module :: operation where
  "nested_module =
     Operation (OperationName ''builtin'' ''module'') [] []
       [[[Operation ClusterOp_name [] []
            [[[Operation ClusterOp_name [] [] [[[Operation (OperationName ''tf'' ''C'') [] [] []]]]]]]]]]"

definition nested_store :: attr_store where
  "nested_store = (\<lambda>p. Map.empty)([(0, 0, 0)] := [kAllowSoftPlacementAttr \<mapsto> BoolAttr True])"

section \<open>The walks and the folds\<close>

declare walk_op.simps [simp del]

lemma set_concat_enumerate:
  "set (concat (map (\<lambda>(i, x). f i x) (enumerate 0 xs))) = (\<Union>i<length xs. set (f i (xs ! i)))"
proof (intro set_eqI iffI)
  fix y assume "y \<in> set (concat (map (\<lambda>(i, x). f i x) (enumerate 0 xs)))"
  then obtain i x where "(i, x) \<in> set (enumerate 0 xs)" "y \<in> set (f i x)" by auto
  then show "y \<in> (\<Union>i<length xs. set (f i (xs ! i)))"
    by (auto simp: in_set_enumerate_eq)
next
  fix y assume "y \<in> (\<Union>i<length xs. set (f i (xs ! i)))"
  then obtain i where i: "i < length xs" "y \<in> set (f i (xs ! i))" by auto
  then have "(i, xs ! i) \<in> set (enumerate 0 xs)" by (simp add: in_set_enumerate_eq)
  with i(2) show "y \<in> set (concat (map (\<lambda>(i, x). f i x) (enumerate 0 xs)))"
    by force
qed

lemma set_walk_block:
  "set (walk_block ord p r b block) =
     (\<Union>i<length block. set (walk_op ord ((r, b, i) # p) (block ! i)))"
  unfolding walk_block_def by (rule set_concat_enumerate)

lemma set_walk_region:
  "set (walk_region ord p r region) =
     (\<Union>b<length region. set (walk_block ord p r b (region ! b)))"
  unfolding walk_region_def by (rule set_concat_enumerate)

lemma set_walk_op_nested:
  "set (walk_op ord p op) =
     insert (p, op) (\<Union>r<length (getRegions op). \<Union>b<length (getRegions op ! r).
        \<Union>i<length (getRegions op ! r ! b).
          set (walk_op ord ((r, b, i) # p) (getRegions op ! r ! b ! i)))"
proof -
  have "set (walk_op ord p op) = insert (p, op) (set (concat (map (\<lambda>(r, region).
                     concat (map (\<lambda>(b, block).
                       concat (map (\<lambda>(i, nestedOp). walk_op ord ((r, b, i) # p) nestedOp)
                         (enumerate 0 block)))
                       (enumerate 0 region)))
                     (enumerate 0 (getRegions op)))))"
    by (subst walk_op.simps) (cases ord; simp only: Let_def walk_order.case list.set set_append; simp)
  then show ?thesis
    by (simp only: set_concat_enumerate)
qed

lemma set_walk_op:
  "set (walk_op ord p op) =
     insert (p, op) (\<Union>r<length (getRegions op). set (walk_region ord p r (getRegions op ! r)))"
  by (subst set_walk_op_nested) (simp add: set_walk_region set_walk_block)

lemma in_walk_op_iff:
  "(q, x) \<in> set (walk_op ord p op) \<longleftrightarrow> (\<exists>d. q = rev d @ p \<and> lookup op d = Some x)"
proof (induction "size op" arbitrary: op p q rule: less_induct)
  case less
  let ?regs = "getRegions op"
  have IH: "(q, x) \<in> set (walk_op ord ((r, b, i) # p) (?regs ! r ! b ! i)) \<longleftrightarrow>
      (\<exists>d. q = rev d @ (r, b, i) # p \<and> lookup (?regs ! r ! b ! i) d = Some x)"
    if "r < length ?regs" "b < length (?regs ! r)" "i < length (?regs ! r ! b)" for r b i q
  proof -
    have "size (?regs ! r ! b ! i) < size op"
      using nested_op_size[OF that] by (cases op) simp
    then show ?thesis by (rule less)
  qed
  show ?case
  proof
    assume "(q, x) \<in> set (walk_op ord p op)"
    then consider "q = p" "x = op"
      | r b i where "r < length ?regs" "b < length (?regs ! r)" "i < length (?regs ! r ! b)"
          "(q, x) \<in> set (walk_op ord ((r, b, i) # p) (?regs ! r ! b ! i))"
      by (subst (asm) set_walk_op_nested) auto
    then show "\<exists>d. q = rev d @ p \<and> lookup op d = Some x"
    proof cases
      case 1
      then have "q = rev [] @ p \<and> lookup op [] = Some x" by simp
      then show ?thesis by blast
    next
      case 2
      from IH[OF 2(1-3)] 2(4) obtain d where
        d: "q = rev d @ (r, b, i) # p" "lookup (?regs ! r ! b ! i) d = Some x" by blast
      with 2(1-3) have "q = rev ((r, b, i) # d) @ p \<and> lookup op ((r, b, i) # d) = Some x"
        by simp
      then show ?thesis by blast
    qed
  next
    assume "\<exists>d. q = rev d @ p \<and> lookup op d = Some x"
    then obtain d where d: "q = rev d @ p" "lookup op d = Some x" by blast
    show "(q, x) \<in> set (walk_op ord p op)"
    proof (cases d)
      case Nil
      with d show ?thesis by (subst set_walk_op_nested) simp
    next
      case (Cons st d')
      obtain r b i where st: "st = (r, b, i)" by (cases st)
      from d(2) Cons st have bnd: "r < length ?regs" "b < length (?regs ! r)"
        "i < length (?regs ! r ! b)" and l: "lookup (?regs ! r ! b ! i) d' = Some x"
        by (auto split: if_splits)
      have "q = rev d' @ (r, b, i) # p" using d(1) Cons st by simp
      with l IH[OF bnd] have "(q, x) \<in> set (walk_op ord ((r, b, i) # p) (?regs ! r ! b ! i))"
        by blast
      with bnd show ?thesis
        by (subst set_walk_op_nested) auto
    qed
  qed
qed

lemma mark_op_eq:
  "mark_op ord fallback tf supported (p, op) s =
     (if should_mark ord fallback tf supported op
      then s(p := (s p)(kXlaOutsideCompilationAttr \<mapsto> StringAttr ''auto'')) else s)"
  by (auto simp: mark_op_def should_mark_def setAttr_def Let_def)

lemma fold_mark_op:
  "fold (mark_op ord fallback tf supported) L s =
     (\<lambda>p. if \<exists>op. (p, op) \<in> set L \<and> should_mark ord fallback tf supported op
          then (s p)(kXlaOutsideCompilationAttr \<mapsto> StringAttr ''auto'') else s p)"
proof (induction L arbitrary: s)
  case Nil
  show ?case by simp
next
  case (Cons x L)
  obtain q op where x: "x = (q, op)" by (cases x)
  show ?case
    unfolding x fold_simps Cons.IH mark_op_eq
    by (rule ext) auto
qed

lemma parent_marked_iff:
  "parent_marked s p \<longleftrightarrow> (\<exists>a. strict_ancestor a p \<and> carries_marker s a)"
proof (induction p)
  case Nil
  show ?case by (simp add: strict_ancestor_def)
next
  case (Cons st p)
  have "(\<exists>a. strict_ancestor a (st # p) \<and> carries_marker s a) \<longleftrightarrow>
        carries_marker s p \<or> (\<exists>a. strict_ancestor a p \<and> carries_marker s a)"
  proof
    assume "\<exists>a. strict_ancestor a (st # p) \<and> carries_marker s a"
    then obtain a d where a: "d \<noteq> []" "st # p = d @ a" "carries_marker s a"
      by (auto simp: strict_ancestor_def)
    then obtain d' where d: "d = st # d'" "p = d' @ a" by (cases d) auto
    show "carries_marker s p \<or> (\<exists>a. strict_ancestor a p \<and> carries_marker s a)"
    proof (cases "d' = []")
      case True
      with d a show ?thesis by simp
    next
      case False
      with d a show ?thesis by (auto simp: strict_ancestor_def)
    qed
  next
    assume "carries_marker s p \<or> (\<exists>a. strict_ancestor a p \<and> carries_marker s a)"
    then show "\<exists>a. strict_ancestor a (st # p) \<and> carries_marker s a"
    proof
      assume "carries_marker s p"
      moreover have "strict_ancestor p (st # p)"
        unfolding strict_ancestor_def by (rule exI[of _ "[st]"]) simp
      ultimately show ?thesis by blast
    next
      assume "\<exists>a. strict_ancestor a p \<and> carries_marker s a"
      then obtain a d where "d \<noteq> []" "p = d @ a" "carries_marker s a"
        by (auto simp: strict_ancestor_def)
      then have "strict_ancestor a (st # p)" "carries_marker s a"
        unfolding strict_ancestor_def by (auto intro: exI[of _ "st # d"])
      then show ?thesis by blast
    qed
  qed
  with Cons show ?case by (simp add: carries_marker_def)
qed

lemma carries_marker_pruned:
  "carries_marker (pruned w V) p \<longleftrightarrow> carries_marker w p \<and> \<not> (p \<in> V \<and> parent_marked w p)"
  by (auto simp: pruned_def carries_marker_def getAttrOfType_StringAttr_def)

lemma parent_marked_pruned: "parent_marked (pruned w V) p = parent_marked w p"
proof (induction p)
  case Nil
  show ?case by simp
next
  case (Cons st p)
  have "parent_marked (pruned w V) (st # p) \<longleftrightarrow>
          carries_marker (pruned w V) p \<or> parent_marked (pruned w V) p"
    by (simp add: carries_marker_def)
  also have "\<dots> \<longleftrightarrow> carries_marker w p \<or> parent_marked w p"
    using Cons by (auto simp: carries_marker_pruned)
  also have "\<dots> \<longleftrightarrow> parent_marked w (st # p)"
    by (simp add: carries_marker_def)
  finally show ?case .
qed

lemma unmark_op_pruned: "unmark_op x (pruned w V) = pruned w (insert x V)"
proof (rule ext)
  fix p
  have c: "carries_marker (pruned w V) x \<longleftrightarrow> carries_marker w x \<and> \<not> (x \<in> V \<and> parent_marked w x)"
    by (rule carries_marker_pruned)
  show "unmark_op x (pruned w V) p = pruned w (insert x V) p"
    using c unfolding unmark_op_def removeAttr_def parent_marked_pruned
    by (auto simp: carries_marker_def pruned_def)
qed

lemma pruned_empty: "pruned w {} = w"
  by (simp add: pruned_def)

lemma fold_unmark_op_pruned: "fold unmark_op ps (pruned w V) = pruned w (set ps \<union> V)"
  by (induction ps arbitrary: V) (simp_all add: unmark_op_pruned)

lemma fold_unmark_op: "fold unmark_op ps w = pruned w (set ps)"
  using fold_unmark_op_pruned[of ps w "{}"] by (simp add: pruned_empty)

lemma kAllow_neq_kXla [simp]:
  "kAllowSoftPlacementAttr \<noteq> kXlaOutsideCompilationAttr"
  "kXlaOutsideCompilationAttr \<noteq> kAllowSoftPlacementAttr"
  by (simp_all add: kAllowSoftPlacementAttr_def kXlaOutsideCompilationAttr_def)

lemma soft_placement_fold_mark_op:
  "soft_placement (fold (mark_op ord fallback tf supported) L s) c = soft_placement s c"
  by (simp add: fold_mark_op soft_placement_def getAttrOfType_BoolAttr_def)

lemma soft_placement_pruned: "soft_placement (pruned w V) c = soft_placement w c"
  by (simp add: pruned_def soft_placement_def getAttrOfType_BoolAttr_def)

lemma gated_walk_Cons:
  "gated_walk ord ((c, cluster) # rest) s =
     (if soft_placement s c then walk_block ord c 0 0 (GetBody cluster) else []) @
     gated_walk ord rest s"
  by (simp add: gated_walk_def)

lemma gated_walk_cong:
  "(\<And>c. soft_placement s' c = soft_placement s c) \<Longrightarrow>
   gated_walk ord clusters s' = gated_walk ord clusters s"
  by (simp add: gated_walk_def)

lemma mark_clusters_eq:
  "mark_clusters ord fallback tf supported clusters s =
     (advance, fold (mark_op ord fallback tf supported) (gated_walk ord clusters s) s)"
proof (induction clusters arbitrary: s)
  case Nil
  show ?case by (simp add: gated_walk_def)
next
  case (Cons x clusters)
  obtain c cluster where x: "x = (c, cluster)" by (cases x)
  show ?case
  proof (cases "soft_placement s c")
    case False
    then show ?thesis by (simp add: x Cons.IH gated_walk_Cons)
  next
    case True
    let ?s' = "fold (mark_op ord fallback tf supported) (walk_block ord c 0 0 (GetBody cluster)) s"
    have "gated_walk ord clusters ?s' = gated_walk ord clusters s"
      by (rule gated_walk_cong) (rule soft_placement_fold_mark_op)
    with True show ?thesis
      by (simp add: x Cons.IH gated_walk_Cons MarkUncompilableOps_def)
  qed
qed

lemma unmark_clusters_pruned:
  "unmark_clusters ord clusters (pruned w V) =
     pruned w (fst ` set (gated_walk ord clusters w) \<union> V)"
proof (induction clusters arbitrary: V)
  case Nil
  show ?case by (simp add: gated_walk_def)
next
  case (Cons x clusters)
  obtain c cluster where x: "x = (c, cluster)" by (cases x)
  show ?case
  proof (cases "soft_placement w c")
    case False
    then show ?thesis by (simp add: x Cons.IH gated_walk_Cons soft_placement_pruned)
  next
    case True
    then show ?thesis
      by (simp add: x Cons.IH gated_walk_Cons soft_placement_pruned UnmarkChildren_def
          fold_unmark_op_pruned image_Un Un_ac)
  qed
qed

lemma unmark_clusters_eq:
  "unmark_clusters ord clusters w = pruned w (fst ` set (gated_walk ord clusters w))"
  using unmark_clusters_pruned[of ord clusters w "{}"] by (simp add: pruned_empty)

lemma lookup_append:
  "lookup op (xs @ ys) = (case lookup op xs of None \<Rightarrow> None | Some op' \<Rightarrow> lookup op' ys)"
  by (induction op xs rule: lookup.induct) auto

lemma in_cluster_ops_iff:
  "(c, cluster) \<in> set (cluster_ops ord module) \<longleftrightarrow>
     op_at module c = Some cluster \<and> isa_ClusterOp cluster"
proof -
  have "(\<exists>d. c = rev d \<and> lookup module d = Some cluster) \<longleftrightarrow> lookup module (rev c) = Some cluster"
    by (metis rev_rev_ident)
  then show ?thesis
    by (auto simp: cluster_ops_def in_walk_op_iff op_at_def)
qed

lemma lookup_GetBody:
  "lookup cluster ((0, 0, i) # d) = Some op \<longleftrightarrow>
     i < length (GetBody cluster) \<and> lookup (GetBody cluster ! i) d = Some op"
  by (cases "getRegions cluster"; cases "hd (getRegions cluster)")
     (auto simp: GetBody_def split: list.splits)

lemma in_walk_body_iff:
  assumes "op_at module c = Some cluster"
  shows "(p, op) \<in> set (walk_block ord c 0 0 (GetBody cluster)) \<longleftrightarrow>
     in_body c p \<and> op_at module p = Some op"
proof
  assume "(p, op) \<in> set (walk_block ord c 0 0 (GetBody cluster))"
  then obtain i d where i: "i < length (GetBody cluster)" and p: "p = rev d @ (0, 0, i) # c"
    and l: "lookup (GetBody cluster ! i) d = Some op"
    by (auto simp: set_walk_block in_walk_op_iff)
  from i l have "lookup cluster ((0, 0, i) # d) = Some op" by (simp only: lookup_GetBody)
  with assms p have "op_at module p = Some op"
    by (simp add: op_at_def lookup_append del: lookup.simps)
  moreover from p have "in_body c p" unfolding in_body_def by blast
  ultimately show "in_body c p \<and> op_at module p = Some op" by simp
next
  assume a: "in_body c p \<and> op_at module p = Some op"
  then obtain d i where p: "p = d @ (0, 0, i) # c" unfolding in_body_def by blast
  with a assms have "lookup cluster ((0, 0, i) # rev d) = Some op"
    by (simp add: op_at_def lookup_append del: lookup.simps)
  then have i: "i < length (GetBody cluster)"
    and l: "lookup (GetBody cluster ! i) (rev d) = Some op"
    by (simp_all only: lookup_GetBody)
  have "p = rev (rev d) @ (0, 0, i) # c" using p by simp
  with l have "(p, op) \<in> set (walk_op ord ((0, 0, i) # c) (GetBody cluster ! i))"
    unfolding in_walk_op_iff by blast
  with i show "(p, op) \<in> set (walk_block ord c 0 0 (GetBody cluster))"
    unfolding set_walk_block by blast
qed

lemma in_gated_walk_iff:
  "(p, op) \<in> set (gated_walk ord (cluster_ops ord module) s) \<longleftrightarrow>
     in_gated_region module s p \<and> op_at module p = Some op"
proof
  assume "(p, op) \<in> set (gated_walk ord (cluster_ops ord module) s)"
  then obtain c cluster where c: "(c, cluster) \<in> set (cluster_ops ord module)"
    "soft_placement s c" "(p, op) \<in> set (walk_block ord c 0 0 (GetBody cluster))"
    by (auto simp: gated_walk_def)
  then have cl: "op_at module c = Some cluster" "isa_ClusterOp cluster"
    by (simp_all add: in_cluster_ops_iff)
  with c(3) have "in_body c p" "op_at module p = Some op"
    by (simp_all add: in_walk_body_iff)
  with cl c(2) show "in_gated_region module s p \<and> op_at module p = Some op"
    unfolding in_gated_region_def gated_cluster_def by auto
next
  assume a: "in_gated_region module s p \<and> op_at module p = Some op"
  then obtain c cluster where c: "op_at module c = Some cluster" "isa_ClusterOp cluster"
    "soft_placement s c" "in_body c p"
    unfolding in_gated_region_def gated_cluster_def by blast
  with a have "(p, op) \<in> set (walk_block ord c 0 0 (GetBody cluster))"
    by (simp add: in_walk_body_iff)
  moreover from c have "(c, cluster) \<in> set (cluster_ops ord module)"
    by (simp add: in_cluster_ops_iff)
  ultimately show "(p, op) \<in> set (gated_walk ord (cluster_ops ord module) s)"
    using c(3) by (auto simp: gated_walk_def)
qed

lemma fst_gated_walk:
  "fst ` set (gated_walk ord (cluster_ops ord module) s) = {p. in_gated_region module s p}"
proof (intro set_eqI iffI)
  fix p assume "p \<in> fst ` set (gated_walk ord (cluster_ops ord module) s)"
  then obtain op where "(p, op) \<in> set (gated_walk ord (cluster_ops ord module) s)" by auto
  then show "p \<in> {p. in_gated_region module s p}" by (simp add: in_gated_walk_iff)
next
  fix p assume "p \<in> {p. in_gated_region module s p}"
  then have g: "in_gated_region module s p" by simp
  then obtain op where "op_at module p = Some op" by (auto simp: in_gated_region_def)
  with g have "(p, op) \<in> set (gated_walk ord (cluster_ops ord module) s)"
    by (simp add: in_gated_walk_iff)
  then show "p \<in> fst ` set (gated_walk ord (cluster_ops ord module) s)" by force
qed

section \<open>The pass as a whole\<close>

lemma mark_phase_eq:
  "mark_phase ord fallback supported_ops module s =
     marked_store ord fallback supported_ops module s"
  unfolding mark_phase_def mark_clusters_eq marked_store_def snd_conv fold_mark_op
  by (rule ext) (auto simp: in_gated_walk_iff)

lemma soft_placement_marked_store:
  "soft_placement (marked_store ord fallback supported_ops module s) c = soft_placement s c"
  by (simp add: marked_store_def soft_placement_def getAttrOfType_BoolAttr_def)

lemma in_gated_region_cong:
  "(\<And>c. soft_placement s' c = soft_placement s c) \<Longrightarrow>
   in_gated_region module s' p = in_gated_region module s p"
  by (simp add: in_gated_region_def gated_cluster_def)

lemma getLoadedDialect_tf:
  "getLoadedDialect ctx ''tf'' = (if ''tf'' \<in> set (loaded_dialects ctx) then Some ''tf'' else None)"
  by (simp add: getLoadedDialect_def)

lemma runOnOperation_not_loaded:
  "''tf'' \<notin> set (loaded_dialects ctx) \<Longrightarrow>
   runOnOperation ord ctx patterns fallback module s =
     Inr \<lparr>attrs = s, diagnostics = [dialect_not_registered], pass_failed = True\<rparr>"
  by (simp add: runOnOperation_def getLoadedDialect_tf)

lemma runOnOperation_abort:
  "''tf'' \<in> set (loaded_dialects ctx) \<Longrightarrow> build_supported_ops patterns = Inl a \<Longrightarrow>
   runOnOperation ord ctx patterns fallback module s = Inl a"
  by (simp add: runOnOperation_def getLoadedDialect_tf)

lemma runOnOperation_loaded:
  assumes "''tf'' \<in> set (loaded_dialects ctx)" "build_supported_ops patterns = Inr supported_ops"
  shows "runOnOperation ord ctx patterns fallback module s =
     Inr \<lparr>attrs = pruned (marked_store ord fallback supported_ops module s)
                     {p. in_gated_region module s p},
          diagnostics = [], pass_failed = False\<rparr>"
proof -
  let ?w = "marked_store ord fallback supported_ops module s"
  have w: "fold (mark_op ord fallback ''tf'' supported_ops)
             (gated_walk ord (cluster_ops ord module) s) s = ?w"
    using mark_phase_eq[of ord fallback supported_ops module s]
    by (simp add: mark_phase_def mark_clusters_eq)
  have "{p. in_gated_region module ?w p} = {p. in_gated_region module s p}"
    using in_gated_region_cong[of ?w s module, OF soft_placement_marked_store] by simp
  then have "unmark_clusters ord (cluster_ops ord module) ?w =
      pruned ?w {p. in_gated_region module s p}"
    by (simp add: unmark_clusters_eq fst_gated_walk)
  with assms w show ?thesis
    by (simp add: runOnOperation_def getLoadedDialect_tf mark_clusters_eq)
qed

lemma runOnOperation_cases:
  assumes "runOnOperation ord ctx patterns fallback module s = Inr r"
  obtains (not_loaded) "''tf'' \<notin> set (loaded_dialects ctx)"
      "r = \<lparr>attrs = s, diagnostics = [dialect_not_registered], pass_failed = True\<rparr>"
    | (loaded) supported_ops where "''tf'' \<in> set (loaded_dialects ctx)"
      "build_supported_ops patterns = Inr supported_ops"
      "r = \<lparr>attrs = pruned (marked_store ord fallback supported_ops module s)
                     {p. in_gated_region module s p},
          diagnostics = [], pass_failed = False\<rparr>"
proof (cases "''tf'' \<in> set (loaded_dialects ctx)")
  case False
  with assms runOnOperation_not_loaded[OF False, of ord patterns fallback module s]
  show ?thesis by (intro not_loaded) auto
next
  case True
  show ?thesis
  proof (cases "build_supported_ops patterns")
    case (Inl a)
    with assms runOnOperation_abort[OF True Inl, of ord fallback module s] show ?thesis by simp
  next
    case (Inr supported_ops)
    with assms runOnOperation_loaded[OF True Inr, of ord fallback module s]
    show ?thesis by (intro loaded[of supported_ops] True) auto
  qed
qed

lemma carries_marker_marked_store:
  "carries_marker (marked_store ord fallback supported_ops module s) p \<longleftrightarrow>
     carries_marker s p \<or> (in_gated_region module s p \<and>
       (\<exists>op. op_at module p = Some op \<and> should_mark ord fallback ''tf'' supported_ops op))"
  by (auto simp: marked_store_def carries_marker_def getAttrOfType_StringAttr_def)

text \<open>Marking again after pruning, and pruning again, changes nothing.\<close>

lemma pruned_idem:
  fixes M :: "path \<Rightarrow> bool"
  assumes MG: "\<And>p. M p \<Longrightarrow> p \<in> G"
  defines "w \<equiv> (\<lambda>s p. if M p then (s p)(kXlaOutsideCompilationAttr \<mapsto> StringAttr ''auto'') else s p)"
  shows "pruned (w (pruned (w s) G)) G = pruned (w s) G"
proof -
  let ?s1 = "pruned (w s) G"
  have cw: "carries_marker (w t) p \<longleftrightarrow> M p \<or> carries_marker t p" for t p
    by (auto simp: w_def carries_marker_def getAttrOfType_StringAttr_def)
  have pm: "parent_marked (w ?s1) p = parent_marked (w s) p" for p
  proof (induction p)
    case Nil
    show ?case by simp
  next
    case (Cons st p)
    have "parent_marked (w ?s1) (st # p) \<longleftrightarrow> carries_marker (w ?s1) p \<or> parent_marked (w ?s1) p"
      by (simp add: carries_marker_def)
    also have "\<dots> \<longleftrightarrow> carries_marker (w s) p \<or> parent_marked (w s) p"
      unfolding Cons cw[of ?s1] carries_marker_pruned using cw[of s p] by blast
    also have "\<dots> \<longleftrightarrow> parent_marked (w s) (st # p)"
      by (simp add: carries_marker_def)
    finally show ?case .
  qed
  show ?thesis
  proof (rule ext)
    fix p
    show "pruned (w ?s1) G p = ?s1 p"
    proof (cases "M p")
      case True
      then have "p \<in> G" by (rule MG)
      with True show ?thesis
        unfolding pruned_def[of "w ?s1"] pm
        by (auto simp: pruned_def w_def carries_marker_def getAttrOfType_StringAttr_def)
    next
      case False
      then have eq: "w ?s1 p = ?s1 p" by (simp add: w_def)
      have "\<not> (p \<in> G \<and> carries_marker (w ?s1) p \<and> parent_marked (w s) p)"
        using False by (auto simp: cw carries_marker_pruned)
      then have "pruned (w ?s1) G p = w ?s1 p"
        unfolding pruned_def[of "w ?s1"] pm by (simp only: if_False)
      with eq show ?thesis by simp
    qed
  qed
qed

lemma HasStringOperand_iff:
  "HasStringOperand op \<longleftrightarrow>
     (\<exists>v\<in>set (getOperands op). getElementTypeOrSelf (getType v) = StringType)"
proof -
  have "HasStringOperand_loop vs \<longleftrightarrow>
      (\<exists>v\<in>set vs. getElementTypeOrSelf (getType v) = StringType)" for vs
    by (induction vs) (auto simp: isa_StringType_def)
  then show ?thesis by (simp add: HasStringOperand_def)
qed

lemma HasStringResult_iff:
  "HasStringResult op \<longleftrightarrow> (\<exists>t\<in>set (getResults op). getElementTypeOrSelf t = StringType)"
proof -
  have "HasStringResult_loop ts \<longleftrightarrow> (\<exists>t\<in>set ts. getElementTypeOrSelf t = StringType)" for ts
    by (induction ts) (auto simp: isa_StringType_def)
  then show ?thesis by (simp add: HasStringResult_def)
qed

lemma in_walk_region_iff:
  "(q, x) \<in> set (walk_region ord p r region) \<longleftrightarrow>
     (\<exists>b i d. b < length region \<and> i < length (region ! b) \<and> q = rev d @ (r, b, i) # p \<and>
        lookup (region ! b ! i) d = Some x)"
  unfolding set_walk_region set_walk_block by (simp add: in_walk_op_iff) blast

lemma in_visitUsedValuesDefinedAbove_iff:
  "v \<in> set (visitUsedValuesDefinedAbove ord region) \<longleftrightarrow>
     (\<exists>b i d x. b < length region \<and> i < length (region ! b) \<and>
        lookup (region ! b ! i) d = Some x \<and> v \<in> set (getOperands x) \<and> length d < def_depth v)"
proof
  assume "v \<in> set (visitUsedValuesDefinedAbove ord region)"
  then obtain q x where qx: "(q, x) \<in> set (walk_region ord [] 0 region)"
    "v \<in> set (getOperands x)" "length q \<le> def_depth v"
    by (auto simp: visitUsedValuesDefinedAbove_def)
  from qx(1) obtain b i d where "b < length region" "i < length (region ! b)"
    "q = rev d @ [(0, b, i)]" "lookup (region ! b ! i) d = Some x"
    unfolding in_walk_region_iff by blast
  with qx(2,3) show "\<exists>b i d x. b < length region \<and> i < length (region ! b) \<and>
        lookup (region ! b ! i) d = Some x \<and> v \<in> set (getOperands x) \<and> length d < def_depth v"
    by (intro exI[of _ b] exI[of _ i] exI[of _ d] exI[of _ x]) simp
next
  assume "\<exists>b i d x. b < length region \<and> i < length (region ! b) \<and>
        lookup (region ! b ! i) d = Some x \<and> v \<in> set (getOperands x) \<and> length d < def_depth v"
  then obtain b i d x where h: "b < length region" "i < length (region ! b)"
    "lookup (region ! b ! i) d = Some x" "v \<in> set (getOperands x)" "length d < def_depth v"
    by blast
  then have "(rev d @ [(0, b, i)], x) \<in> set (walk_region ord [] 0 region)"
    unfolding in_walk_region_iff by blast
  with h(4,5) show "v \<in> set (visitUsedValuesDefinedAbove ord region)"
    unfolding visitUsedValuesDefinedAbove_def by force
qed

lemma HasCapturedStringOperand_iff:
  "HasCapturedStringOperand ord op \<longleftrightarrow> captures_string op"
proof -
  have loop: "HasCapturedStringOperand_loop ord regions \<longleftrightarrow>
      (\<exists>region\<in>set regions. \<exists>v\<in>set (visitUsedValuesDefinedAbove ord region).
         getElementTypeOrSelf (getType v) = StringType)" for regions
    by (induction regions) (auto simp: list_ex_iff isa_StringType_def)
  show ?thesis
  proof
    assume "HasCapturedStringOperand ord op"
    then obtain region v where rv: "region \<in> set (getRegions op)"
      "v \<in> set (visitUsedValuesDefinedAbove ord region)"
      "getElementTypeOrSelf (getType v) = StringType"
      unfolding HasCapturedStringOperand_def loop by blast
    from rv(2) obtain b i d x where "b < length region" "i < length (region ! b)"
      "lookup (region ! b ! i) d = Some x" "v \<in> set (getOperands x)" "length d < def_depth v"
      unfolding in_visitUsedValuesDefinedAbove_iff by blast
    with rv(1,3) show "captures_string op"
      unfolding captures_string_def
      by (intro bexI[of _ region] exI[of _ b] exI[of _ i] exI[of _ d] exI[of _ x] conjI
          bexI[of _ v]) simp_all
  next
    assume "captures_string op"
    then obtain region b i d x v where h: "region \<in> set (getRegions op)"
      "b < length region" "i < length (region ! b)" "lookup (region ! b ! i) d = Some x"
      "v \<in> set (getOperands x)" "getElementTypeOrSelf (getType v) = StringType"
      "length d < def_depth v"
      unfolding captures_string_def by blast
    then have "v \<in> set (visitUsedValuesDefinedAbove ord region)"
      unfolding in_visitUsedValuesDefinedAbove_iff by blast
    with h(1,6) show "HasCapturedStringOperand ord op"
      unfolding HasCapturedStringOperand_def loop by blast
  qed
qed

lemma should_mark_string:
  assumes "getDialect op = tf"
    "(\<exists>v\<in>set (getOperands op). getElementTypeOrSelf (getType v) = StringType) \<or>
     (\<exists>t\<in>set (getResults op). getElementTypeOrSelf t = StringType)"
  shows "should_mark ord fallback tf supported_ops op"
  using assms by (auto simp: should_mark_def IsSupportedOp_def HasStringOperand_iff HasStringResult_iff)

lemma should_mark_captured:
  "isa_IfRegionOp_WhileRegionOp op \<Longrightarrow> captures_string op \<Longrightarrow>
   should_mark ord fallback tf supported_ops op"
  by (simp add: should_mark_def HasCapturedStringOperand_iff)

lemma should_mark_foreign:
  "getDialect op \<noteq> ''tf'' \<Longrightarrow> \<not> should_mark ord fallback ''tf'' supported_ops op"
  by (auto simp: should_mark_def IsSupportedOp_def isa_IfRegionOp_WhileRegionOp_def
      getDialect_def IfRegionOp_name_def WhileRegionOp_name_def)

lemma marked_store_marks:
  assumes "in_gated_region module s p" "op_at module p = Some op"
    "should_mark ord fallback ''tf'' supported_ops op"
  shows "marked_store ord fallback supported_ops module s p kXlaOutsideCompilationAttr =
     Some (StringAttr ''auto'')"
  using assms by (auto simp: marked_store_def)

text \<open>
  C1 (ancestor subsumption). After a run of the pass that did not fail, an operation
  inside the body of a cluster with soft placement that carries the marker has no strict
  ancestor that carries it: not within the region, and not above it either.
\<close>

theorem ancestor_subsumption:
  assumes "runOnOperation ord ctx patterns fallback module s = Inr r"
    and "\<not> pass_failed r"
    and "in_gated_region module s p"
    and "carries_marker (attrs r) p"
    and "strict_ancestor a p"
  shows "\<not> carries_marker (attrs r) a"
  using assms(1)
proof (cases rule: runOnOperation_cases)
  case not_loaded
  with assms(2) show ?thesis by simp
next
  case (loaded supported_ops)
  let ?w = "marked_store ord fallback supported_ops module s"
  let ?G = "{p. in_gated_region module s p}"
  from loaded(3) have r: "attrs r = pruned ?w ?G" by simp
  from assms(4) assms(3) have "\<not> parent_marked ?w p"
    unfolding r carries_marker_pruned by simp
  with assms(5) have "\<not> carries_marker ?w a"
    unfolding parent_marked_iff by blast
  then show ?thesis unfolding r carries_marker_pruned by simp
qed

text \<open>
  C2 (idempotence). Whenever the pass returns, running it again on the attributes it left
  returns the very same result: the same attribute store, hence the same set of marked
  operations, the same diagnostics and the same failure flag.
\<close>

theorem pass_idempotent:
  assumes "runOnOperation ord ctx patterns fallback module s = Inr r"
  shows "runOnOperation ord ctx patterns fallback module (attrs r) = Inr r"
  using assms
proof (cases rule: runOnOperation_cases)
  case not_loaded
  then show ?thesis by (simp add: runOnOperation_not_loaded)
next
  case (loaded supported_ops)
  define M where "M = (\<lambda>p. in_gated_region module s p \<and>
     (\<exists>op. op_at module p = Some op \<and> should_mark ord fallback ''tf'' supported_ops op))"
  define G where "G = {p. in_gated_region module s p}"
  define w where
    "w = (\<lambda>t p. if M p then (t p)(kXlaOutsideCompilationAttr \<mapsto> StringAttr ''auto'') else t p)"
  have ws: "marked_store ord fallback supported_ops module s = w s"
    by (simp add: marked_store_def w_def M_def)
  have r: "attrs r = pruned (w s) G"
    using loaded(3) by (simp add: ws G_def)
  have soft: "soft_placement (attrs r) c = soft_placement s c" for c
    unfolding r soft_placement_pruned ws[symmetric] by (rule soft_placement_marked_store)
  have g: "in_gated_region module (attrs r) p = in_gated_region module s p" for p
    by (rule in_gated_region_cong) (rule soft)
  have wr: "marked_store ord fallback supported_ops module (attrs r) = w (attrs r)"
    by (simp add: marked_store_def w_def M_def g)
  have "pruned (w (pruned (w s) G)) G = pruned (w s) G"
    unfolding w_def by (rule pruned_idem) (simp add: M_def G_def)
  then have "pruned (marked_store ord fallback supported_ops module (attrs r))
      {p. in_gated_region module (attrs r) p} = attrs r"
    unfolding wr g by (simp add: r G_def)
  with loaded show ?thesis
    using runOnOperation_loaded[OF loaded(1,2), of ord fallback module "attrs r"] by simp
qed

text \<open>
  C3 (gating), amended. The claim as stated says that nothing in the subtree of a cluster
  without soft placement changes. That fails where clusters nest: the walk over the body
  of a cluster with soft placement descends into a cluster without it, and the walk of a
  cluster with soft placement nested in one without it marks inside the outer subtree.
  What holds: in the subtree of a cluster whose flag is false or absent, every operation
  that does not lie in the body of some cluster with soft placement keeps its attribute
  dictionary, markers from before included.
\<close>

theorem gating_outside_gated_regions:
  assumes "runOnOperation ord ctx patterns fallback module s = Inr r"
    and "op_at module c = Some cluster" and "isa_ClusterOp cluster"
    and "\<not> soft_placement s c"
    and "in_subtree c p"
    and "\<not> in_gated_region module s p"
  shows "attrs r p = s p"
  using assms(1)
proof (cases rule: runOnOperation_cases)
  case not_loaded
  then show ?thesis by simp
next
  case (loaded supported_ops)
  with assms(6) show ?thesis by (simp add: pruned_def marked_store_def)
qed

text \<open>
  C4 (string exclusion). An operation of the \<open>tf\<close> dialect inside the body of a cluster with
  soft placement that has an operand or a result of string element type carries the
  marker, with the value \<open>auto\<close>, once the first walk is over (before any unmarking),
  whatever the supported set and the fallback predicate say.
\<close>

theorem string_exclusion:
  assumes "in_gated_region module s p"
    and "op_at module p = Some op"
    and "getDialect op = ''tf''"
    and "(\<exists>v\<in>set (getOperands op). getElementTypeOrSelf (getType v) = StringType) \<or>
         (\<exists>t\<in>set (getResults op). getElementTypeOrSelf t = StringType)"
  shows "carries_marker (mark_phase ord fallback supported_ops module s) p \<and>
         mark_phase ord fallback supported_ops module s p kXlaOutsideCompilationAttr =
           Some (StringAttr ''auto'')"
proof -
  have "should_mark ord fallback ''tf'' supported_ops op"
    using assms(3,4) by (rule should_mark_string)
  from marked_store_marks[OF assms(1,2) this] show ?thesis
    by (simp add: mark_phase_eq carries_marker_def getAttrOfType_StringAttr_def)
qed

text \<open>
  C5 (captured-value override). A \<open>tf.IfRegion\<close> or \<open>tf.WhileRegion\<close> inside the body of a
  cluster with soft placement, one of whose regions uses a value of string element type
  defined outside that region, carries the marker after the first walk, for every
  supported set, so also when its own kind is in the set.
\<close>

theorem captured_string_override:
  assumes "in_gated_region module s p"
    and "op_at module p = Some op"
    and "isa_IfRegionOp_WhileRegionOp op"
    and "captures_string op"
  shows "carries_marker (mark_phase ord fallback supported_ops module s) p \<and>
         mark_phase ord fallback supported_ops module s p kXlaOutsideCompilationAttr =
           Some (StringAttr ''auto'')"
proof -
  have "should_mark ord fallback ''tf'' supported_ops op"
    using assms(3,4) by (rule should_mark_captured)
  from marked_store_marks[OF assms(1,2) this] show ?thesis
    by (simp add: mark_phase_eq carries_marker_def getAttrOfType_StringAttr_def)
qed

text \<open>
  C6 (dialect exemption). An operation whose dialect is not \<open>tf\<close> is never given the marker,
  whatever its operand and result types: the first walk leaves its attribute dictionary as
  it was, and after the pass the dictionary is as before or as before without the marker
  (the pruner may remove a marker that was there).
\<close>

theorem dialect_exemption:
  assumes "op_at module p = Some op" and "getDialect op \<noteq> ''tf''"
    and "runOnOperation ord ctx patterns fallback module s = Inr r"
  shows "mark_phase ord fallback supported_ops module s p = s p \<and>
         (attrs r p = s p \<or> attrs r p = (s p)(kXlaOutsideCompilationAttr := None))"
proof
  have nm: "\<not> should_mark ord fallback ''tf'' sup op" for sup
    using assms(2) by (rule should_mark_foreign)
  then have ms: "marked_store ord fallback sup module s p = s p" for sup
    using assms(1) by (simp add: marked_store_def)
  then show "mark_phase ord fallback supported_ops module s p = s p"
    by (simp add: mark_phase_eq)
  from assms(3)
  show "attrs r p = s p \<or> attrs r p = (s p)(kXlaOutsideCompilationAttr := None)"
  proof (cases rule: runOnOperation_cases)
    case not_loaded
    then show ?thesis by simp
  next
    case (loaded sup)
    then show ?thesis by (simp add: pruned_def ms)
  qed
qed

text \<open>
  C7 (order independence of the pruner). Visiting the operations of the block in any
  order \<open>ps\<close> (each at least once) gives the store that \<^verbatim>\<open>UnmarkChildren\<close> gives with
  the walk's own order. An operation of the block keeps the marker exactly when it
  carried it before the pruner started and no strict ancestor carried it then; the
  operations outside the block are untouched.
\<close>

theorem pruner_order_independent:
  assumes "set ps = fst ` set (walk_block ord c r b block)"
  shows "fold unmark_op ps w = UnmarkChildren ord (c, r, b) block w \<and>
         (\<forall>p\<in>set ps. carries_marker (UnmarkChildren ord (c, r, b) block w) p \<longleftrightarrow>
            carries_marker w p \<and> \<not> (\<exists>a. strict_ancestor a p \<and> carries_marker w a)) \<and>
         (\<forall>p. p \<notin> set ps \<longrightarrow> UnmarkChildren ord (c, r, b) block w p = w p)"
proof -
  have u: "UnmarkChildren ord (c, r, b) block w = pruned w (set ps)"
    by (simp add: UnmarkChildren_def fold_unmark_op assms)
  show ?thesis
    unfolding u fold_unmark_op
    by (simp add: carries_marker_pruned parent_marked_iff) (simp add: pruned_def)
qed

text \<open>
  C10. The upward walk of the pruner does not end at the cluster: when the cluster
  operation itself, or an operation above it, carries the marker, no operation in the body
  of the cluster carries the marker after \<^verbatim>\<open>UnmarkChildren\<close> has run on that body.
\<close>

theorem pruner_walks_past_cluster:
  assumes "op_at module c = Some cluster"
    and "in_body c p" and "op_at module p \<noteq> None"
    and "carries_marker w c \<or> (\<exists>a. strict_ancestor a c \<and> carries_marker w a)"
  shows "\<not> carries_marker (UnmarkChildren ord (c, 0, 0) (GetBody cluster) w) p"
proof -
  from assms(3) obtain op where op: "op_at module p = Some op" by blast
  with assms(1,2) have "(p, op) \<in> set (walk_block ord c 0 0 (GetBody cluster))"
    by (simp add: in_walk_body_iff)
  then have v: "p \<in> set (map fst (walk_block ord c 0 0 (GetBody cluster)))" by force
  from assms(2) obtain d i where p: "p = d @ (0, 0, i) # c" unfolding in_body_def by blast
  have "\<exists>a. strict_ancestor a p \<and> carries_marker w a"
    using assms(4)
  proof
    assume "carries_marker w c"
    moreover have "strict_ancestor c p"
      unfolding strict_ancestor_def p by (rule exI[of _ "d @ [(0, 0, i)]"]) simp
    ultimately show ?thesis by blast
  next
    assume "\<exists>a. strict_ancestor a c \<and> carries_marker w a"
    then obtain a e where "e \<noteq> []" "c = e @ a" "carries_marker w a"
      unfolding strict_ancestor_def by blast
    moreover then have "strict_ancestor a p"
      unfolding strict_ancestor_def p by (intro exI[of _ "d @ (0, 0, i) # e"]) simp
    ultimately show ?thesis by blast
  qed
  then have "parent_marked w p" by (simp add: parent_marked_iff)
  with v show ?thesis
    by (simp add: UnmarkChildren_def fold_unmark_op carries_marker_pruned)
qed

lemma parent_marked_Cons:
  "parent_marked s (st # p) \<longleftrightarrow> carries_marker s p \<or> parent_marked s p"
  by (simp add: carries_marker_def)

lemma walk_op_Operation:
  "walk_op ord p (Operation name operands results regions) =
     (let nested = concat (map (\<lambda>(r, region).
                     concat (map (\<lambda>(b, block).
                       concat (map (\<lambda>(i, nestedOp). walk_op ord ((r, b, i) # p) nestedOp)
                         (enumerate 0 block)))
                       (enumerate 0 region)))
                     (enumerate 0 regions))
      in (case ord of PreOrder \<Rightarrow> (p, Operation name operands results regions) # nested
          | PostOrder \<Rightarrow> nested @ [(p, Operation name operands results regions)]))"
  by (subst walk_op.simps) simp

text \<open>The loop of \<^verbatim>\<open>UnmarkChildren\<close> in terms of \<^verbatim>\<open>getParentOp\<close>.\<close>

lemma parent_marked_getParentOp:
  "parent_marked s iter_op =
     (case getParentOp iter_op of
        None \<Rightarrow> False
      | Some parent_op \<Rightarrow> carries_marker s parent_op \<or> parent_marked s parent_op)"
  by (cases iter_op) (simp_all add: carries_marker_def)

text \<open>The two walk orders visit the same operations, so the two phases do not depend on it.\<close>

lemma set_walk_block_order:
  "set (walk_block ord p r b block) = set (walk_block ord' p r b block)"
proof -
  have "set (walk_op ord q op) = set (walk_op ord' q op)" for q op
    by (auto simp: in_walk_op_iff)
  then show ?thesis by (simp add: set_walk_block)
qed

lemma UnmarkChildren_order:
  "UnmarkChildren ord (c, r, b) block w = UnmarkChildren ord' (c, r, b) block w"
  using set_walk_block_order[of ord c r b block ord']
  by (simp add: UnmarkChildren_def fold_unmark_op)

section \<open>The supported set and the example\<close>

lemma insert_root_kinds_rooted:
  "\<forall>pat\<in>set patterns. getRootKind pat \<noteq> None \<Longrightarrow>
   insert_root_kinds patterns acc = Inr (acc \<union> {k. RewritePattern (Some k) \<in> set patterns})"
proof (induction patterns arbitrary: acc)
  case Nil
  show ?case by simp
next
  case (Cons pat patterns)
  then obtain k where k: "pat = RewritePattern (Some k)" by (cases pat) auto
  with Cons show ?case by auto
qed



text \<open>
  C9 (the one error of the pass). With a catalog of rooted rules the pass always returns.
  It fails exactly when the \<open>tf\<close> dialect is not loaded; then it emits the one diagnostic
  and leaves every attribute of the module as it was. In every other situation (also
  the empty catalog, a module without clusters with soft placement, a module without
  unsupported operations) it completes without failure and without a diagnostic.
\<close>

theorem missing_dialect_only_failure:
  assumes "\<forall>pat\<in>set patterns. getRootKind pat \<noteq> None"
  shows "\<exists>r. runOnOperation ord ctx patterns fallback module s = Inr r \<and>
       (pass_failed r \<longleftrightarrow> ''tf'' \<notin> set (loaded_dialects ctx)) \<and>
       (if ''tf'' \<in> set (loaded_dialects ctx) then diagnostics r = []
        else attrs r = s \<and> diagnostics r = [dialect_not_registered])"
proof (cases "''tf'' \<in> set (loaded_dialects ctx)")
  case False
  then show ?thesis by (simp add: runOnOperation_not_loaded)
next
  case True
  from insert_root_kinds_rooted[OF assms, of "{}"]
  obtain supported_ops where "build_supported_ops patterns = Inr supported_ops"
    by (simp add: build_supported_ops_def)
  from runOnOperation_loaded[OF True this] True show ?thesis by simp
qed

lemma in_body_Nil: "\<not> in_body c []"
  by (simp add: in_body_def)

lemma in_body_Cons:
  "in_body c (st # p) \<longleftrightarrow> (\<exists>i. st = (0, 0, i) \<and> c = p) \<or> in_body c p"
proof
  assume "in_body c (st # p)"
  then obtain d i where d: "st # p = d @ (0, 0, i) # c" unfolding in_body_def by blast
  show "(\<exists>i. st = (0, 0, i) \<and> c = p) \<or> in_body c p"
  proof (cases d)
    case Nil
    with d show ?thesis by simp
  next
    case (Cons x d')
    with d have "p = d' @ (0, 0, i) # c" by simp
    then show ?thesis unfolding in_body_def by blast
  qed
next
  assume "(\<exists>i. st = (0, 0, i) \<and> c = p) \<or> in_body c p"
  then show "in_body c (st # p)"
  proof
    assume "\<exists>i. st = (0, 0, i) \<and> c = p"
    then obtain i where "st # p = [] @ (0, 0, i) # c" by auto
    then show ?thesis unfolding in_body_def by blast
  next
    assume "in_body c p"
    then obtain d i where "p = d @ (0, 0, i) # c" unfolding in_body_def by blast
    then have "st # p = (st # d) @ (0, 0, i) # c" by simp
    then show ?thesis unfolding in_body_def by blast
  qed
qed

lemma ex_op_at:
  "op_at ex_module [] = Some ex_module"
  "op_at ex_module [(0, 0, 0)] = Some ex_cluster"
  "op_at ex_module [(0, 0, 1)] = Some ex_plain_cluster"
  "op_at ex_module [(0, 0, 0), (0, 0, 0)] = Some ex_A"
  "op_at ex_module [(0, 0, 1), (0, 0, 0)] = Some ex_while"
  "op_at ex_module [(0, 0, 2), (0, 0, 0)] = Some ex_inner_cluster"
  "op_at ex_module [(0, 0, 3), (0, 0, 0)] = Some ex_foreign"
  "op_at ex_module [(0, 0, 0), (0, 0, 1)] = Some ex_D"
  "op_at ex_module [(0, 0, 0), (0, 0, 0), (0, 0, 0)] = Some ex_B"
  "op_at ex_module [(0, 0, 0), (0, 0, 1), (0, 0, 0)] = Some ex_yield"
  "op_at ex_module [(0, 0, 0), (0, 0, 2), (0, 0, 0)] = Some ex_C"
  by (simp_all add: op_at_def ex_module_def ex_cluster_def ex_plain_cluster_def ex_A_def
      ex_while_def ex_inner_cluster_def)

lemma ex_soft:
  "soft_placement ex_store [(0, 0, 0)]"
  "\<not> soft_placement ex_store []"
  "\<not> soft_placement ex_store [(0, 0, 1)]"
  "\<not> soft_placement ex_store [(0, 0, 2), (0, 0, 0)]"
  by (simp_all add: soft_placement_def getAttrOfType_BoolAttr_def ex_store_def)

lemma ex_gated_cluster: "gated_cluster ex_module ex_store c \<longleftrightarrow> c = [(0, 0, 0)]"
proof
  assume g: "gated_cluster ex_module ex_store c"
  then have "soft_placement ex_store c" by (auto simp: gated_cluster_def)
  then show "c = [(0, 0, 0)]"
    by (simp add: soft_placement_def getAttrOfType_BoolAttr_def ex_store_def split: if_splits)
next
  assume "c = [(0, 0, 0)]"
  then show "gated_cluster ex_module ex_store c"
    by (simp add: gated_cluster_def ex_op_at ex_soft isa_ClusterOp_def ex_cluster_def)
qed

lemma ex_in_gated:
  "in_gated_region ex_module ex_store [(0, 0, 0), (0, 0, 0)]"
  "in_gated_region ex_module ex_store [(0, 0, 1), (0, 0, 0)]"
  "in_gated_region ex_module ex_store [(0, 0, 3), (0, 0, 0)]"
  "in_gated_region ex_module ex_store [(0, 0, 0), (0, 0, 0), (0, 0, 0)]"
  "in_gated_region ex_module ex_store [(0, 0, 0), (0, 0, 1), (0, 0, 0)]"
  "in_gated_region ex_module ex_store [(0, 0, 0), (0, 0, 2), (0, 0, 0)]"
  "\<not> in_gated_region ex_module ex_store []"
  "\<not> in_gated_region ex_module ex_store [(0, 0, 0)]"
  "\<not> in_gated_region ex_module ex_store [(0, 0, 1)]"
  "\<not> in_gated_region ex_module ex_store [(0, 0, 0), (0, 0, 1)]"
  by (simp_all add: in_gated_region_def ex_gated_cluster ex_op_at ex_op_at[unfolded One_nat_def]
      in_body_Cons in_body_Nil)

section \<open>The claims on the example module\<close>

declare parent_marked.simps(2) [simp del]

lemma ex_build: "build_supported_ops [] = Inr ex_supported"
  by (simp add: build_supported_ops_def ex_supported_def)

lemma ex_run:
  "runOnOperation ord ex_ctx [] ex_fallback ex_module ex_store =
     Inr \<lparr>attrs = pruned (marked_store ord ex_fallback ex_supported ex_module ex_store)
                     {p. in_gated_region ex_module ex_store p},
          diagnostics = [], pass_failed = False\<rparr>"
  by (rule runOnOperation_loaded[OF _ ex_build]) (simp add: ex_ctx_def)

lemma ex_captures: "captures_string ex_while"
proof -
  have "lookup ex_yield [] = Some ex_yield" by simp
  moreover have "Val (ShapedType StringType) 1 \<in> set (getOperands ex_yield)"
    by (simp add: ex_yield_def)
  ultimately show ?thesis
    unfolding captures_string_def
    by (intro bexI[of _ "[[ex_yield]]"] exI[of _ 0] exI[of _ "[]"] exI[of _ ex_yield] conjI
        bexI[of _ "Val (ShapedType StringType) 1"]) (simp_all add: ex_while_def)
qed

lemma ex_should_mark:
  "should_mark ord ex_fallback ''tf'' ex_supported ex_A"
  "should_mark ord ex_fallback ''tf'' ex_supported ex_B"
  "should_mark ord ex_fallback ''tf'' ex_supported ex_C"
  "should_mark ord ex_fallback ''tf'' ex_supported ex_yield"
  "should_mark ord ex_fallback ''tf'' ex_supported ex_while"
  "\<not> should_mark ord ex_fallback ''tf'' ex_supported ex_foreign"
  "\<not> should_mark ord ex_fallback ''tf'' ex_supported ex_cluster"
  "\<not> should_mark ord ex_fallback ''tf'' ex_supported ex_inner_cluster"
proof -
  show "should_mark ord ex_fallback ''tf'' ex_supported ex_while"
    by (rule should_mark_captured[OF _ ex_captures])
       (simp add: isa_IfRegionOp_WhileRegionOp_def ex_while_def)
  show "should_mark ord ex_fallback ''tf'' ex_supported ex_yield"
    by (rule should_mark_string) (simp_all add: ex_yield_def getDialect_def YieldOp_name_def)
  show "\<not> should_mark ord ex_fallback ''tf'' ex_supported ex_foreign"
    by (rule should_mark_foreign) (simp add: ex_foreign_def getDialect_def)
  show "\<not> should_mark ord ex_fallback ''tf'' ex_supported ex_cluster"
    by (rule should_mark_foreign) (simp add: ex_cluster_def getDialect_def ClusterOp_name_def)
  show "\<not> should_mark ord ex_fallback ''tf'' ex_supported ex_inner_cluster"
    by (rule should_mark_foreign)
       (simp add: ex_inner_cluster_def getDialect_def ClusterOp_name_def)
  have names: "OperationName ''tf'' n \<in> ex_supported \<longleftrightarrow>
      n \<in> {''IfRegion'', ''WhileRegion'', ''Yield'', ''RecvTPUEmbeddingActivations'',
           ''SendTPUEmbeddingGradients''}" for n
    by (auto simp: ex_supported_def AddRewrittenEmbeddingOps_def AddSupportedControlFlowOps_def
        IfRegionOp_name_def WhileRegionOp_name_def YieldOp_name_def
        RecvTPUEmbeddingActivationsOp_name_def SendTPUEmbeddingGradientsOp_name_def)
  show "should_mark ord ex_fallback ''tf'' ex_supported ex_A"
    by (simp add: should_mark_def IsSupportedOp_def MatchesPattern_def getDialect_def
        ex_fallback_def ex_A_def names)
  show "should_mark ord ex_fallback ''tf'' ex_supported ex_B"
    by (simp add: should_mark_def IsSupportedOp_def MatchesPattern_def getDialect_def
        ex_fallback_def ex_B_def names)
  show "should_mark ord ex_fallback ''tf'' ex_supported ex_C"
    by (simp add: should_mark_def IsSupportedOp_def MatchesPattern_def getDialect_def
        ex_fallback_def ex_C_def names)
qed

lemma ex_store_marker:
  "carries_marker ex_store p \<longleftrightarrow> p = [(0, 0, 0), (0, 0, 1)]"
  by (simp add: carries_marker_def getAttrOfType_StringAttr_def ex_store_def)

lemma ex_walker:
  "carries_marker (marked_store ord ex_fallback ex_supported ex_module ex_store) [(0, 0, 0), (0, 0, 0)]"
  "carries_marker (marked_store ord ex_fallback ex_supported ex_module ex_store) [(0, 0, 0), (0, 0, 0), (0, 0, 0)]"
  "carries_marker (marked_store ord ex_fallback ex_supported ex_module ex_store) [(0, 0, 0), (0, 0, 2), (0, 0, 0)]"
  "\<not> carries_marker (marked_store ord ex_fallback ex_supported ex_module ex_store) []"
  "\<not> carries_marker (marked_store ord ex_fallback ex_supported ex_module ex_store) [(0, 0, 0)]"
  "\<not> carries_marker (marked_store ord ex_fallback ex_supported ex_module ex_store) [(0, 0, 2), (0, 0, 0)]"
  by (simp_all add: carries_marker_marked_store ex_store_marker ex_in_gated ex_op_at
      ex_should_mark)

lemma ex_strict_ancestor: "strict_ancestor [(0, 0, 0)] [(0, 0, 0), (0, 0, 0)]"
  unfolding strict_ancestor_def by (rule exI[of _ "[(0, 0, 0)]"]) simp

text \<open>C1 on the example: \<open>tf.A\<close> keeps the marker, and the cluster above it has none.\<close>

theorem ancestor_subsumption_witness:
  "\<exists>r. runOnOperation PostOrder ex_ctx [] ex_fallback ex_module ex_store = Inr r \<and>
       \<not> pass_failed r \<and>
       in_gated_region ex_module ex_store [(0, 0, 0), (0, 0, 0)] \<and>
       carries_marker (attrs r) [(0, 0, 0), (0, 0, 0)] \<and>
       strict_ancestor [(0, 0, 0)] [(0, 0, 0), (0, 0, 0)] \<and>
       \<not> carries_marker (attrs r) [(0, 0, 0)]"
proof -
  define r where "r = \<lparr>attrs = pruned (marked_store PostOrder ex_fallback ex_supported ex_module ex_store)
                     {p. in_gated_region ex_module ex_store p},
          diagnostics = [], pass_failed = False\<rparr>"
  have run: "runOnOperation PostOrder ex_ctx [] ex_fallback ex_module ex_store = Inr r"
    unfolding r_def by (rule ex_run)
  have nf: "\<not> pass_failed r" by (simp add: r_def)
  have g: "in_gated_region ex_module ex_store [(0, 0, 0), (0, 0, 0)]" by (rule ex_in_gated)
  have c: "carries_marker (attrs r) [(0, 0, 0), (0, 0, 0)]"
    by (simp add: r_def carries_marker_pruned parent_marked_Cons ex_walker)
  from ancestor_subsumption[OF run nf g c ex_strict_ancestor] run nf g c ex_strict_ancestor
  show ?thesis by blast
qed

text \<open>C2 on the example.\<close>

theorem pass_idempotent_witness:
  "\<exists>r. runOnOperation PostOrder ex_ctx [] ex_fallback ex_module ex_store = Inr r \<and>
       runOnOperation PostOrder ex_ctx [] ex_fallback ex_module (attrs r) = Inr r"
proof -
  obtain r where run: "runOnOperation PostOrder ex_ctx [] ex_fallback ex_module ex_store = Inr r"
    using ex_run by blast
  from pass_idempotent[OF run] run show ?thesis by blast
qed

lemma ex_in_subtree:
  "in_subtree [(0, 0, 2), (0, 0, 0)] [(0, 0, 0), (0, 0, 2), (0, 0, 0)]"
  "in_subtree [(0, 0, 1)] [(0, 0, 0), (0, 0, 1)]"
  unfolding in_subtree_def by (rule exI[of _ "[(0, 0, 0)]"], simp)+

text \<open>
  C3 as stated fails on the example: the inner cluster has no soft-placement flag, and
  \<open>tf.C\<close> in its body, unmarked before, carries the marker after the pass.
\<close>

theorem gating_nested_cluster_counterexample:
  "op_at ex_module [(0, 0, 2), (0, 0, 0)] = Some ex_inner_cluster \<and>
   isa_ClusterOp ex_inner_cluster \<and>
   \<not> soft_placement ex_store [(0, 0, 2), (0, 0, 0)] \<and>
   in_subtree [(0, 0, 2), (0, 0, 0)] [(0, 0, 0), (0, 0, 2), (0, 0, 0)] \<and>
   \<not> carries_marker ex_store [(0, 0, 0), (0, 0, 2), (0, 0, 0)] \<and>
   \<not> isl (runOnOperation PostOrder ex_ctx [] ex_fallback ex_module ex_store) \<and>
   carries_marker (attrs (projr (runOnOperation PostOrder ex_ctx [] ex_fallback ex_module ex_store)))
     [(0, 0, 0), (0, 0, 2), (0, 0, 0)]"
  by (simp add: ex_run ex_op_at ex_soft ex_in_subtree ex_store_marker isa_ClusterOp_def
      ex_inner_cluster_def carries_marker_pruned parent_marked_Cons ex_walker)

text \<open>C3 amended, on the second cluster of the example: \<open>tf.D\<close> keeps the marker it had.\<close>

theorem gating_outside_gated_regions_witness:
  "\<exists>r. runOnOperation PostOrder ex_ctx [] ex_fallback ex_module ex_store = Inr r \<and>
       op_at ex_module [(0, 0, 1)] = Some ex_plain_cluster \<and>
       isa_ClusterOp ex_plain_cluster \<and>
       \<not> soft_placement ex_store [(0, 0, 1)] \<and>
       in_subtree [(0, 0, 1)] [(0, 0, 0), (0, 0, 1)] \<and>
       \<not> in_gated_region ex_module ex_store [(0, 0, 0), (0, 0, 1)] \<and>
       attrs r [(0, 0, 0), (0, 0, 1)] = ex_store [(0, 0, 0), (0, 0, 1)] \<and>
       carries_marker (attrs r) [(0, 0, 0), (0, 0, 1)]"
proof -
  obtain r where run: "runOnOperation PostOrder ex_ctx [] ex_fallback ex_module ex_store = Inr r"
    using ex_run by blast
  have c: "op_at ex_module [(0, 0, 1)] = Some ex_plain_cluster" by (rule ex_op_at)
  have i: "isa_ClusterOp ex_plain_cluster"
    by (simp add: isa_ClusterOp_def ex_plain_cluster_def)
  have s: "\<not> soft_placement ex_store [(0, 0, 1)]" by (rule ex_soft)
  have g: "\<not> in_gated_region ex_module ex_store [(0, 0, 0), (0, 0, 1)]" by (rule ex_in_gated)
  note eq = gating_outside_gated_regions[OF run c i s ex_in_subtree(2) g]
  have "carries_marker ex_store [(0, 0, 0), (0, 0, 1)]" by (simp add: ex_store_marker)
  then have "carries_marker (attrs r) [(0, 0, 0), (0, 0, 1)]"
    unfolding carries_marker_def eq .
  with eq run c i s g ex_in_subtree(2) show ?thesis by blast
qed

text \<open>C4 on the example: the \<open>tf.Yield\<close> with a string operand.\<close>

theorem string_exclusion_witness:
  "in_gated_region ex_module ex_store [(0, 0, 0), (0, 0, 1), (0, 0, 0)] \<and>
   op_at ex_module [(0, 0, 0), (0, 0, 1), (0, 0, 0)] = Some ex_yield \<and>
   getDialect ex_yield = ''tf'' \<and>
   (\<exists>v\<in>set (getOperands ex_yield). getElementTypeOrSelf (getType v) = StringType) \<and>
   carries_marker (mark_phase PostOrder ex_fallback ex_supported ex_module ex_store)
     [(0, 0, 0), (0, 0, 1), (0, 0, 0)] \<and>
   mark_phase PostOrder ex_fallback ex_supported ex_module ex_store
     [(0, 0, 0), (0, 0, 1), (0, 0, 0)] kXlaOutsideCompilationAttr = Some (StringAttr ''auto'')"
proof -
  have g: "in_gated_region ex_module ex_store [(0, 0, 0), (0, 0, 1), (0, 0, 0)]"
    by (rule ex_in_gated)
  have a: "op_at ex_module [(0, 0, 0), (0, 0, 1), (0, 0, 0)] = Some ex_yield" by (rule ex_op_at)
  have d: "getDialect ex_yield = ''tf''"
    by (simp add: getDialect_def ex_yield_def YieldOp_name_def)
  have v: "\<exists>v\<in>set (getOperands ex_yield). getElementTypeOrSelf (getType v) = StringType"
    by (simp add: ex_yield_def)
  then have "(\<exists>v\<in>set (getOperands ex_yield). getElementTypeOrSelf (getType v) = StringType) \<or>
      (\<exists>t\<in>set (getResults ex_yield). getElementTypeOrSelf t = StringType)" ..
  from string_exclusion[OF g a d this, of PostOrder ex_fallback ex_supported] g a d v
  show ?thesis by blast
qed

text \<open>C5 on the example: the \<open>tf.WhileRegion\<close>, whose kind is in the supported set.\<close>

theorem captured_string_override_witness:
  "in_gated_region ex_module ex_store [(0, 0, 1), (0, 0, 0)] \<and>
   op_at ex_module [(0, 0, 1), (0, 0, 0)] = Some ex_while \<and>
   isa_IfRegionOp_WhileRegionOp ex_while \<and> captures_string ex_while \<and>
   getName ex_while \<in> ex_supported \<and>
   carries_marker (mark_phase PostOrder ex_fallback ex_supported ex_module ex_store)
     [(0, 0, 1), (0, 0, 0)] \<and>
   mark_phase PostOrder ex_fallback ex_supported ex_module ex_store
     [(0, 0, 1), (0, 0, 0)] kXlaOutsideCompilationAttr = Some (StringAttr ''auto'')"
proof -
  have g: "in_gated_region ex_module ex_store [(0, 0, 1), (0, 0, 0)]" by (rule ex_in_gated)
  have a: "op_at ex_module [(0, 0, 1), (0, 0, 0)] = Some ex_while" by (rule ex_op_at)
  have i: "isa_IfRegionOp_WhileRegionOp ex_while"
    by (simp add: isa_IfRegionOp_WhileRegionOp_def ex_while_def)
  have m: "getName ex_while \<in> ex_supported"
    by (simp add: ex_while_def ex_supported_def AddRewrittenEmbeddingOps_def
        AddSupportedControlFlowOps_def)
  from captured_string_override[OF g a i ex_captures, of PostOrder ex_fallback ex_supported]
    g a i m ex_captures
  show ?thesis by blast
qed

text \<open>C6 on the example: the operation of another dialect with a string result.\<close>

theorem dialect_exemption_witness:
  "\<exists>r. op_at ex_module [(0, 0, 3), (0, 0, 0)] = Some ex_foreign \<and>
       getDialect ex_foreign \<noteq> ''tf'' \<and>
       (\<exists>t\<in>set (getResults ex_foreign). getElementTypeOrSelf t = StringType) \<and>
       runOnOperation PostOrder ex_ctx [] ex_fallback ex_module ex_store = Inr r \<and>
       mark_phase PostOrder ex_fallback ex_supported ex_module ex_store [(0, 0, 3), (0, 0, 0)] =
         ex_store [(0, 0, 3), (0, 0, 0)] \<and>
       \<not> carries_marker (attrs r) [(0, 0, 3), (0, 0, 0)]"
proof -
  obtain r where run: "runOnOperation PostOrder ex_ctx [] ex_fallback ex_module ex_store = Inr r"
    using ex_run by blast
  have a: "op_at ex_module [(0, 0, 3), (0, 0, 0)] = Some ex_foreign" by (rule ex_op_at)
  have d: "getDialect ex_foreign \<noteq> ''tf''" by (simp add: getDialect_def ex_foreign_def)
  have t: "\<exists>t\<in>set (getResults ex_foreign). getElementTypeOrSelf t = StringType"
    by (simp add: ex_foreign_def)
  note ex = dialect_exemption[OF a d run, of ex_supported]
  have "\<not> carries_marker ex_store [(0, 0, 3), (0, 0, 0)]" by (simp add: ex_store_marker)
  with ex have "\<not> carries_marker (attrs r) [(0, 0, 3), (0, 0, 0)]"
    by (auto simp: carries_marker_def getAttrOfType_StringAttr_def)
  with ex a d t run show ?thesis by blast
qed

lemma ex_marks_marker:
  "carries_marker ex_marks p \<longleftrightarrow> p = [(0, 0, 0)] \<or> p = [(0, 0, 0), (0, 0, 0)]"
  by (auto simp: carries_marker_def getAttrOfType_StringAttr_def ex_marks_def)

text \<open>C7 on \<open>tf.A\<close> and \<open>tf.B\<close>, parent first where the walk has the child first.\<close>

theorem pruner_order_independent_witness:
  "set [[(0, 0, 0)], [(0, 0, 0), (0, 0, 0)]] = fst ` set (walk_block PostOrder [] 0 0 [ex_A]) \<and>
   map fst (walk_block PostOrder [] 0 0 [ex_A]) = [[(0, 0, 0), (0, 0, 0)], [(0, 0, 0)]] \<and>
   fold unmark_op [[(0, 0, 0)], [(0, 0, 0), (0, 0, 0)]] ex_marks =
     UnmarkChildren PostOrder ([], 0, 0) [ex_A] ex_marks \<and>
   carries_marker (UnmarkChildren PostOrder ([], 0, 0) [ex_A] ex_marks) [(0, 0, 0)] \<and>
   carries_marker ex_marks [(0, 0, 0), (0, 0, 0)] \<and>
   \<not> carries_marker (UnmarkChildren PostOrder ([], 0, 0) [ex_A] ex_marks) [(0, 0, 0), (0, 0, 0)]"
proof -
  have w: "map fst (walk_block PostOrder [] 0 0 [ex_A]) = [[(0, 0, 0), (0, 0, 0)], [(0, 0, 0)]]"
    by (simp add: walk_block_def walk_op_Operation ex_A_def ex_B_def)
  then have s: "set [[(0, 0, 0)], [(0, 0, 0), (0, 0, 0)]] =
      fst ` set (walk_block PostOrder [] 0 0 [ex_A])"
    unfolding set_map[symmetric] by auto
  note th = pruner_order_independent[OF s, of ex_marks]
  from th have eq: "fold unmark_op [[(0, 0, 0)], [(0, 0, 0), (0, 0, 0)]] ex_marks =
      UnmarkChildren PostOrder ([], 0, 0) [ex_A] ex_marks" by (rule conjunct1)
  from th have b: "\<forall>p\<in>set [[(0, 0, 0)], [(0, 0, 0), (0, 0, 0)]].
      carries_marker (UnmarkChildren PostOrder ([], 0, 0) [ex_A] ex_marks) p \<longleftrightarrow>
      carries_marker ex_marks p \<and> \<not> parent_marked ex_marks p"
    unfolding parent_marked_iff by blast
  have c1: "carries_marker (UnmarkChildren PostOrder ([], 0, 0) [ex_A] ex_marks) [(0, 0, 0)]"
    using bspec[OF b, of "[(0, 0, 0)]"] by (simp add: ex_marks_marker parent_marked_Cons)
  have c2: "\<not> carries_marker (UnmarkChildren PostOrder ([], 0, 0) [ex_A] ex_marks)
      [(0, 0, 0), (0, 0, 0)]"
    using bspec[OF b, of "[(0, 0, 0), (0, 0, 0)]"] by (simp add: ex_marks_marker parent_marked_Cons)
  have m: "carries_marker ex_marks [(0, 0, 0), (0, 0, 0)]" by (simp add: ex_marks_marker)
  from s w eq c1 m c2 show ?thesis by blast
qed

text \<open>C10 on the example, with the marker on the cluster itself.\<close>

theorem pruner_walks_past_cluster_witness:
  "op_at ex_module [(0, 0, 0)] = Some ex_cluster \<and>
   in_body [(0, 0, 0)] [(0, 0, 0), (0, 0, 0)] \<and>
   op_at ex_module [(0, 0, 0), (0, 0, 0)] \<noteq> None \<and>
   carries_marker ex_marks [(0, 0, 0)] \<and>
   carries_marker ex_marks [(0, 0, 0), (0, 0, 0)] \<and>
   \<not> carries_marker (UnmarkChildren PostOrder ([(0, 0, 0)], 0, 0) (GetBody ex_cluster) ex_marks)
       [(0, 0, 0), (0, 0, 0)]"
proof -
  have c: "op_at ex_module [(0, 0, 0)] = Some ex_cluster" by (rule ex_op_at)
  have b: "in_body [(0, 0, 0)] [(0, 0, 0), (0, 0, 0)]" by (simp add: in_body_Cons)
  have a: "op_at ex_module [(0, 0, 0), (0, 0, 0)] \<noteq> None" by (simp add: ex_op_at)
  have m: "carries_marker ex_marks [(0, 0, 0)]" "carries_marker ex_marks [(0, 0, 0), (0, 0, 0)]"
    by (simp_all add: ex_marks_marker)
  from m(1) have "carries_marker ex_marks [(0, 0, 0)] \<or>
      (\<exists>a. strict_ancestor a [(0, 0, 0)] \<and> carries_marker ex_marks a)" ..
  from pruner_walks_past_cluster[OF c b a this, of PostOrder] c b a m show ?thesis by blast
qed

text \<open>
  The nested clusters again, this time by running the definitions of the pass themselves
  on the smaller module: \<open>tf.C\<close> in the inner cluster ends with the marker.
\<close>

lemma nested_run:
  "\<exists>r. runOnOperation PostOrder ex_ctx [] ex_fallback nested_module nested_store = Inr r \<and>
       attrs r [(0, 0, 0), (0, 0, 0), (0, 0, 0)] kXlaOutsideCompilationAttr = Some (StringAttr ''auto'')"
  by (simp add: nested_module_def nested_store_def ex_ctx_def ex_fallback_def
      runOnOperation_def getLoadedDialect_def build_supported_ops_def
      AddRewrittenEmbeddingOps_def AddSupportedControlFlowOps_def cluster_ops_def
      walk_op_Operation walk_block_def isa_ClusterOp_def GetBody_def
      soft_placement_def getAttrOfType_BoolAttr_def getAttrOfType_StringAttr_def
      MarkUncompilableOps_def mark_op_def IsSupportedOp_def getDialect_def HasStringOperand_def
      HasStringResult_def MatchesPattern_def isa_IfRegionOp_WhileRegionOp_def
      UnmarkChildren_def unmark_op_def setAttr_def removeAttr_def
      IfRegionOp_name_def WhileRegionOp_name_def YieldOp_name_def ClusterOp_name_def
      RecvTPUEmbeddingActivationsOp_name_def SendTPUEmbeddingGradientsOp_name_def
      parent_marked.simps)

text \<open>
  C9 on the example module: without the \<open>tf\<close> dialect the pass fails with the diagnostic and
  the store it was given; with it, and with the empty catalog, it completes.
\<close>

theorem missing_dialect_only_failure_witness:
  "\<exists>r r'. runOnOperation PostOrder \<lparr>loaded_dialects = [''builtin'', ''tf_device'']\<rparr>
            [RewritePattern (Some YieldOp_name)] ex_fallback ex_module ex_store = Inr r \<and>
          pass_failed r \<and> attrs r = ex_store \<and> diagnostics r = [dialect_not_registered] \<and>
          runOnOperation PostOrder ex_ctx [] ex_fallback ex_module ex_store = Inr r' \<and>
          \<not> pass_failed r' \<and> diagnostics r' = []"
proof -
  have "\<forall>pat\<in>set [RewritePattern (Some YieldOp_name)]. getRootKind pat \<noteq> None" by simp
  from missing_dialect_only_failure[OF this, of PostOrder
      "\<lparr>loaded_dialects = [''builtin'', ''tf_device'']\<rparr>" ex_fallback ex_module ex_store]
  obtain r where r: "runOnOperation PostOrder \<lparr>loaded_dialects = [''builtin'', ''tf_device'']\<rparr>
      [RewritePattern (Some YieldOp_name)] ex_fallback ex_module ex_store = Inr r"
    "pass_failed r" "attrs r = ex_store" "diagnostics r = [dialect_not_registered]"
    by auto
  have "\<forall>pat\<in>set ([] :: RewritePattern list). getRootKind pat \<noteq> None" by simp
  from missing_dialect_only_failure[OF this, of PostOrder ex_ctx ex_fallback ex_module ex_store]
  obtain r' where r': "runOnOperation PostOrder ex_ctx [] ex_fallback ex_module ex_store = Inr r'"
    "\<not> pass_failed r'" "diagnostics r' = []"
    by (auto simp: ex_ctx_def)
  from r r' show ?thesis by blast
qed

end
